theory Spec2Isabelle
  imports Main "HOL-Library.Word"
begin

unbundle bit_operations_syntax

section \<open>The 32-bit bitset of bitset.go\<close>

text \<open>
  The Go package keeps a bitset as a length \<open>n\<close> (a \<open>uint32\<close>) and a slice \<open>b\<close> of
  \<open>uint32\<close> words. All arithmetic on lengths, indices and words is 32-bit and wraps
  around; it is modelled on \<open>32 word\<close>. Indexing a slice outside its length makes the
  Go runtime panic: every operation that indexes returns an \<open>option\<close>, and \<open>None\<close> is
  that panic. Methods that mutate their receiver return the updated bitset.
\<close>

type_synonym u32 = "32 word"

subsection \<open>Constants and word count\<close>

definition lWord :: u32 where
  "lWord = 32"

definition lLog2Word :: nat where
  "lLog2Word = 5"

definition allBits :: u32 where
  "allBits = 0xffffffff"

definition MaxUint32 :: u32 where
  "MaxUint32 = 0xffffffff"

definition wordsNeeded :: "u32 \<Rightarrow> u32" where
  "wordsNeeded k =
     (if k = 0 then 1
      else if k = MaxUint32 then drop_bit lLog2Word MaxUint32
      else drop_bit lLog2Word (k + (lWord - 1)))"

subsection \<open>The structure\<close>

record Bitset =
  bs_n :: u32
  bs_b :: "u32 list"

text \<open>Reading and writing one element of a slice, with the runtime's bounds check.\<close>

definition word_at :: "u32 list \<Rightarrow> u32 \<Rightarrow> u32 option" where
  "word_at ws i = (if unat i < length ws then Some (ws ! unat i) else None)"

definition word_upd :: "u32 list \<Rightarrow> u32 \<Rightarrow> (u32 \<Rightarrow> u32) \<Rightarrow> u32 list option" where
  "word_upd ws i f =
     (if unat i < length ws then Some (ws[unat i := f (ws ! unat i)]) else None)"

text \<open>The word index \<open>i >> lLog2Word\<close> and the mask \<open>1 << (i & (lWord - 1))\<close> of bit \<open>i\<close>.\<close>

definition word_index :: "u32 \<Rightarrow> u32" where
  "word_index i = drop_bit lLog2Word i"

definition bit_mask :: "u32 \<Rightarrow> u32" where
  "bit_mask i = push_bit (unat (i AND (lWord - 1))) 1"

definition New :: "u32 \<Rightarrow> Bitset" where
  "New k = \<lparr>bs_n = k, bs_b = replicate (unat (wordsNeeded k)) 0\<rparr>"

definition Len :: "Bitset \<Rightarrow> u32" where
  "Len bs = bs_n bs"

subsection \<open>Single bits\<close>

definition Test :: "Bitset \<Rightarrow> u32 \<Rightarrow> bool option" where
  "Test bs i =
     (if bs_n bs \<le> i then Some False
      else map_option (\<lambda>w. w AND bit_mask i \<noteq> 0) (word_at (bs_b bs) (word_index i)))"

text \<open>
  The growth branch of \<open>Set\<close>: the word count for \<open>i + 1\<close> bits (the sum wraps), zero
  words appended up to that count when it exceeds the present one, and the length
  set to \<open>i + 1\<close>.
\<close>

definition grow :: "Bitset \<Rightarrow> u32 \<Rightarrow> Bitset" where
  "grow bs i =
     (let nsize = wordsNeeded (i + 1);
          l = (word_of_nat (length (bs_b bs)) :: u32);
          ws = (if l < nsize then bs_b bs @ replicate (unat (nsize - l)) 0 else bs_b bs)
      in \<lparr>bs_n = i + 1, bs_b = ws\<rparr>)"

definition Set :: "Bitset \<Rightarrow> u32 \<Rightarrow> Bitset option" where
  "Set bs i =
     (let bs1 = (if bs_n bs \<le> i then grow bs i else bs)
      in map_option (\<lambda>ws. bs1\<lparr>bs_b := ws\<rparr>)
           (word_upd (bs_b bs1) (word_index i) (\<lambda>w. w OR bit_mask i)))"

definition Clear :: "Bitset \<Rightarrow> u32 \<Rightarrow> Bitset option" where
  "Clear bs i =
     (if bs_n bs \<le> i then Some bs
      else map_option (\<lambda>ws. bs\<lparr>bs_b := ws\<rparr>)
             (word_upd (bs_b bs) (word_index i) (\<lambda>w. w AND NOT (bit_mask i))))"

definition Flip :: "Bitset \<Rightarrow> u32 \<Rightarrow> Bitset option" where
  "Flip bs i =
     (case (if bs_n bs \<le> i then Set bs i else Some bs) of
        None \<Rightarrow> None
      | Some bs1 \<Rightarrow>
          map_option (\<lambda>ws. bs1\<lparr>bs_b := ws\<rparr>)
            (word_upd (bs_b bs1) (word_index i) (\<lambda>w. w XOR bit_mask i)))"

definition ClearAll :: "Bitset \<Rightarrow> Bitset" where
  "ClearAll bs = bs\<lparr>bs_b := map (\<lambda>w. 0) (bs_b bs)\<rparr>"

definition wordCount :: "Bitset \<Rightarrow> u32" where
  "wordCount bs = wordsNeeded (bs_n bs)"

subsection \<open>Clone and Copy\<close>

text \<open>Go's \<open>copy(dst, src)\<close> overwrites the first \<open>min (len dst) (len src)\<close> elements of \<open>dst\<close>.\<close>

definition copy_words :: "u32 list \<Rightarrow> u32 list \<Rightarrow> u32 list" where
  "copy_words dst src = take (length dst) src @ drop (length src) dst"

definition Clone :: "Bitset \<Rightarrow> Bitset" where
  "Clone bs = (let c = New (bs_n bs) in c\<lparr>bs_b := copy_words (bs_b c) (bs_b bs)\<rparr>)"

text \<open>\<open>b.Copy(c)\<close> overlays the words of \<open>b\<close> on \<open>c\<close>; the pair is the updated \<open>c\<close> and the result.\<close>

definition Copy :: "Bitset \<Rightarrow> Bitset \<Rightarrow> Bitset \<times> u32" where
  "Copy bs c =
     (c\<lparr>bs_b := copy_words (bs_b c) (bs_b bs)\<rparr>,
      if bs_n bs < bs_n c then bs_n bs else bs_n c)"

subsection \<open>Population count\<close>

definition m1 :: u32 where "m1 = 0x55555555"
definition m2 :: u32 where "m2 = 0x33333333"
definition m4 :: u32 where "m4 = 0x0f0f0f0f"

definition popCountUint32 :: "u32 \<Rightarrow> u32" where
  "popCountUint32 x0 =
     (let x1 = x0 - (drop_bit 1 x0 AND m1);
          x2 = (x1 AND m2) + (drop_bit 2 x1 AND m2);
          x3 = (x2 + drop_bit 4 x2) AND m4;
          x4 = x3 + drop_bit 8 x3;
          x5 = x4 + drop_bit 16 x4
      in x5 AND 0x7f)"

primrec count_loop :: "u32 list \<Rightarrow> u32 \<Rightarrow> u32" where
  "count_loop [] s = s"
| "count_loop (w # ws) s = count_loop ws (s + popCountUint32 w)"

definition Count :: "Bitset \<Rightarrow> u32" where
  "Count bs = count_loop (bs_b bs) 0"

subsection \<open>Equality\<close>

fun equal_loop :: "u32 list \<Rightarrow> nat \<Rightarrow> u32 list \<Rightarrow> bool option" where
  "equal_loop [] p cs = Some True"
| "equal_loop (v # vs) p cs =
     (if p < length cs
      then (if cs ! p \<noteq> v then Some False else equal_loop vs (Suc p) cs)
      else None)"

definition Equal :: "Bitset \<Rightarrow> Bitset \<Rightarrow> bool option" where
  "Equal bs c = (if bs_n bs \<noteq> bs_n c then Some False else equal_loop (bs_b bs) 0 (bs_b c))"

subsection \<open>Set algebra\<close>

text \<open>
  \<open>Difference\<close>, \<open>Union\<close> and \<open>SymmetricDifference\<close> run the same counted loop
  \<open>for i := uint32(0); i < l; i++ { if i >= szl { break }; result.b[i] = b.b[i] op ob.b[i] }\<close>
  with a different operator; \<open>counted_loop\<close> is that loop, the counter a \<open>uint32\<close>.
\<close>

function counted_loop ::
  "(u32 \<Rightarrow> u32 \<Rightarrow> u32) \<Rightarrow> u32 \<Rightarrow> u32 \<Rightarrow> u32 \<Rightarrow> u32 list \<Rightarrow> u32 list \<Rightarrow> u32 list \<Rightarrow> u32 list option"
where
  "counted_loop f i l szl xs ys rs =
     (if i < l
      then (if szl \<le> i then Some rs
            else if unat i < length xs \<and> unat i < length ys \<and> unat i < length rs
            then counted_loop f (i + 1) l szl xs ys (rs[unat i := f (xs ! unat i) (ys ! unat i)])
            else None)
      else Some rs)"
  by pat_completeness auto
termination
proof (relation "measure (\<lambda>(f, i, l, szl, xs, ys, rs). unat l - unat i)")
  show "wf (measure (\<lambda>(f, i, l, szl, xs, ys, rs). unat l - unat i))"
    by simp
next
  fix f :: "u32 \<Rightarrow> u32 \<Rightarrow> u32" and i l szl :: u32 and xs ys rs :: "u32 list"
  assume "i < l"
  then have "unat i < unat l"
    by (simp add: word_less_nat_alt)
  moreover from \<open>i < l\<close> have "unat i + 1 < 2 ^ 32"
    using unsigned_less [of l, where 'a = nat] by (simp add: word_less_nat_alt)
  then have "unat (i + 1) = Suc (unat i)"
    by (simp add: unat_word_ariths)
  ultimately show "((f, i + 1, l, szl, xs, ys, rs[unat i := f (xs ! unat i) (ys ! unat i)]),
           (f, i, l, szl, xs, ys, rs))
          \<in> measure (\<lambda>(f, i, l, szl, xs, ys, rs). unat l - unat i)"
    by simp
qed

definition Difference :: "Bitset \<Rightarrow> Bitset \<Rightarrow> Bitset option" where
  "Difference bs ob =
     (let result = Clone bs;
          szl = wordCount ob;
          l = (word_of_nat (length (bs_b bs)) :: u32)
      in map_option (\<lambda>ws. result\<lparr>bs_b := ws\<rparr>)
           (counted_loop (\<lambda>x y. x AND NOT y) 0 l szl (bs_b bs) (bs_b ob) (bs_b result)))"

definition sortByLength :: "Bitset \<Rightarrow> Bitset \<Rightarrow> Bitset \<times> Bitset" where
  "sortByLength a c = (if bs_n a \<le> bs_n c then (a, c) else (c, a))"

text \<open>The loop of \<open>Intersection\<close>: \<open>for i, w := range b.b { result.b[i] = w & ob.b[i] }\<close>.\<close>

fun intersection_loop :: "u32 list \<Rightarrow> nat \<Rightarrow> u32 list \<Rightarrow> u32 list \<Rightarrow> u32 list option" where
  "intersection_loop [] i ys rs = Some rs"
| "intersection_loop (w # ws) i ys rs =
     (if i < length ys \<and> i < length rs
      then intersection_loop ws (Suc i) ys (rs[i := w AND ys ! i])
      else None)"

definition Intersection :: "Bitset \<Rightarrow> Bitset \<Rightarrow> Bitset option" where
  "Intersection bs0 ob0 =
     (case sortByLength bs0 ob0 of (bs, ob) \<Rightarrow>
        (let result = New (bs_n bs)
         in map_option (\<lambda>ws. result\<lparr>bs_b := ws\<rparr>)
              (intersection_loop (bs_b bs) 0 (bs_b ob) (bs_b result))))"

definition Union :: "Bitset \<Rightarrow> Bitset \<Rightarrow> Bitset option" where
  "Union bs0 ob0 =
     (case sortByLength bs0 ob0 of (bs, ob) \<Rightarrow>
        (let result = Clone ob;
             szl = wordCount ob;
             l = (word_of_nat (length (bs_b bs)) :: u32)
         in map_option (\<lambda>ws. result\<lparr>bs_b := ws\<rparr>)
              (counted_loop (OR) 0 l szl (bs_b bs) (bs_b ob) (bs_b result))))"

definition SymmetricDifference :: "Bitset \<Rightarrow> Bitset \<Rightarrow> Bitset option" where
  "SymmetricDifference bs0 ob0 =
     (case sortByLength bs0 ob0 of (bs, ob) \<Rightarrow>
        (let result = Clone ob;
             szl = wordCount bs;
             l = (word_of_nat (length (bs_b bs)) :: u32)
         in map_option (\<lambda>ws. result\<lparr>bs_b := ws\<rparr>)
              (counted_loop (XOR) 0 l szl (bs_b bs) (bs_b ob) (bs_b result))))"

subsection \<open>Complement\<close>

definition isEven :: "Bitset \<Rightarrow> bool" where
  "isEven bs = (bs_n bs mod lWord = 0)"

definition cleanLastWord :: "Bitset \<Rightarrow> Bitset option" where
  "cleanLastWord bs =
     (if \<not> isEven bs
      then map_option (\<lambda>ws. bs\<lparr>bs_b := ws\<rparr>)
             (word_upd (bs_b bs) (wordsNeeded (bs_n bs) - 1)
                (\<lambda>w. w AND drop_bit (unat (lWord - bs_n bs mod lWord)) allBits))
      else Some bs)"

text \<open>
  \<open>String\<close> prints the words from index \<open>wordsNeeded(b.n) - 1\<close> down to 0, each as 32
  binary digits and a dot. The subtraction is 32-bit; its result is converted to
  \<open>int\<close>, which is taken to be 64 bits wide, so the conversion keeps the value.
\<close>

definition format_word :: "u32 \<Rightarrow> string" where
  "format_word w = map (\<lambda>k. if bit w (31 - k) then CHR ''1'' else CHR ''0'') [0..<32] @ ''.''"

fun string_loop :: "nat \<Rightarrow> u32 list \<Rightarrow> string \<Rightarrow> string option" where
  "string_loop 0 ws buf = (if 0 < length ws then Some (buf @ format_word (ws ! 0)) else None)"
| "string_loop (Suc i) ws buf =
     (if Suc i < length ws then string_loop i ws (buf @ format_word (ws ! Suc i)) else None)"

definition String :: "Bitset \<Rightarrow> string option" where
  "String bs = string_loop (unat (wordsNeeded (bs_n bs) - 1)) (bs_b bs) []"

text \<open>The loop of \<open>Complement\<close>: \<open>for i, w := range b.b { result.b[i] = ^(w) }\<close>.\<close>

fun complement_loop :: "u32 list \<Rightarrow> nat \<Rightarrow> u32 list \<Rightarrow> u32 list option" where
  "complement_loop [] i rs = Some rs"
| "complement_loop (w # ws) i rs =
     (if i < length rs then complement_loop ws (Suc i) (rs[i := NOT w]) else None)"

definition Complement :: "Bitset \<Rightarrow> Bitset option" where
  "Complement bs =
     (case String bs of
        None \<Rightarrow> None
      | Some s \<Rightarrow>
          (let result = New (bs_n bs)
           in case complement_loop (bs_b bs) 0 (bs_b result) of
                None \<Rightarrow> None
              | Some ws \<Rightarrow> cleanLastWord (result\<lparr>bs_b := ws\<rparr>)))"

subsection \<open>All, None, Any\<close>

definition All :: "Bitset \<Rightarrow> bool" where
  "All bs = (Count bs = bs_n bs)"

primrec none_loop :: "u32 list \<Rightarrow> bool" where
  "none_loop [] = True"
| "none_loop (w # ws) = (if 0 < w then False else none_loop ws)"

definition None_bs :: "Bitset \<Rightarrow> bool" where
  "None_bs bs = none_loop (bs_b bs)"

definition Any :: "Bitset \<Rightarrow> bool" where
  "Any bs = (\<not> None_bs bs)"

section \<open>Properties\<close>

subsection \<open>Notions used in the statements\<close>

text \<open>
  \<open>New\<close> gives a bitset \<open>wordsNeeded n\<close> words for its length \<open>n\<close>, and every operation
  that returns keeps that relation between the two fields (\<open>built_sized\<close> below);
  \<open>sized\<close> is this relation.
\<close>

definition sized :: "Bitset \<Rightarrow> bool" where
  "sized bs = (length (bs_b bs) = unat (wordsNeeded (bs_n bs)))"

text \<open>
  The lengths for which \<open>n + (lWord - 1)\<close> does not wrap around: up to \<open>2^32 - 32\<close>.
\<close>

definition below_wrap :: "u32 \<Rightarrow> bool" where
  "below_wrap k = (k \<le> 0xFFFFFFE0)"

text \<open>No bit at a logical position from the length on is set in any word.\<close>

definition padding_zero :: "Bitset \<Rightarrow> bool" where
  "padding_zero bs =
     (\<forall>p \<in> {unat (bs_n bs) ..< 32 * length (bs_b bs)}. \<not> bit (bs_b bs ! (p div 32)) (p mod 32))"

text \<open>\<open>a.op(c).Equal(c.op(a))\<close> for a binary operation \<open>op\<close>.\<close>

definition commutes ::
  "(Bitset \<Rightarrow> Bitset \<Rightarrow> Bitset option) \<Rightarrow> Bitset \<Rightarrow> Bitset \<Rightarrow> bool option" where
  "commutes op a c =
     (case op a c of
        None \<Rightarrow> None
      | Some x \<Rightarrow> (case op c a of None \<Rightarrow> None | Some y \<Rightarrow> Equal x y))"

text \<open>\<open>a.Difference(c).Count() + a.Intersection(c).Count() == a.Count()\<close>.\<close>

definition count_split :: "Bitset \<Rightarrow> Bitset \<Rightarrow> bool option" where
  "count_split a c =
     (case Difference a c of
        None \<Rightarrow> None
      | Some d \<Rightarrow>
          (case Intersection a c of
             None \<Rightarrow> None
           | Some e \<Rightarrow> Some (Count d + Count e = Count a)))"


text \<open>
  The closed form of the loops that combine two word sequences: positions \<open>i\<close> up to
  \<open>m\<close> (exclusive) of \<open>rs\<close> receive \<open>f\<close> of the words of \<open>xs\<close> and \<open>ys\<close>, the others stay.
\<close>

definition overlay ::
  "(u32 \<Rightarrow> u32 \<Rightarrow> u32) \<Rightarrow> nat \<Rightarrow> nat \<Rightarrow> u32 list \<Rightarrow> u32 list \<Rightarrow> u32 list \<Rightarrow> u32 list" where
  "overlay f i m xs ys rs =
     map (\<lambda>k. if i \<le> k \<and> k < m then f (xs ! k) (ys ! k) else rs ! k) [0..<length rs]"

text \<open>The mask \<open>allBits >> (lWord - (b.n % lWord))\<close> that \<open>cleanLastWord\<close> applies.\<close>

definition tail_mask :: "u32 \<Rightarrow> u32" where
  "tail_mask k = drop_bit (unat (lWord - k mod lWord)) allBits"

text \<open>
  The bitsets that the exported functions produce: \<open>New\<close> at any length, and whatever
  an operation returns on bitsets produced before. An operation that panics produces
  nothing.
\<close>

inductive built :: "Bitset \<Rightarrow> bool" where
  built_New: "built (New k)"
| built_Set: "built bs \<Longrightarrow> Set bs i = Some bs' \<Longrightarrow> built bs'"
| built_Clear: "built bs \<Longrightarrow> Clear bs i = Some bs' \<Longrightarrow> built bs'"
| built_Flip: "built bs \<Longrightarrow> Flip bs i = Some bs' \<Longrightarrow> built bs'"
| built_ClearAll: "built bs \<Longrightarrow> built (ClearAll bs)"
| built_Clone: "built bs \<Longrightarrow> built (Clone bs)"
| built_Copy: "built bs \<Longrightarrow> built c \<Longrightarrow> built (fst (Copy bs c))"
| built_Difference: "built a \<Longrightarrow> built c \<Longrightarrow> Difference a c = Some r \<Longrightarrow> built r"
| built_Intersection: "built a \<Longrightarrow> built c \<Longrightarrow> Intersection a c = Some r \<Longrightarrow> built r"
| built_Union: "built a \<Longrightarrow> built c \<Longrightarrow> Union a c = Some r \<Longrightarrow> built r"
| built_SymmetricDifference:
    "built a \<Longrightarrow> built c \<Longrightarrow> SymmetricDifference a c = Some r \<Longrightarrow> built r"
| built_Complement: "built bs \<Longrightarrow> Complement bs = Some r \<Longrightarrow> built r"

text \<open>
  For the correctness of \<open>popCountUint32\<close>: a number as the list of its digits in base
  \<open>B\<close>, least significant first; the digits at even positions; the sums of
  neighbouring pairs of digits, disjoint and overlapping; the algorithm on natural
  numbers; and the bits of a word with their sum, the number of bits set.
\<close>

primrec val :: "nat \<Rightarrow> nat list \<Rightarrow> nat" where
  "val B [] = 0"
| "val B (d # ds) = d + B * val B ds"

fun evens :: "nat list \<Rightarrow> nat list" where
  "evens [] = []"
| "evens [x] = [x]"
| "evens (x # y # zs) = x # evens zs"

fun pairsums :: "nat list \<Rightarrow> nat list" where
  "pairsums [] = []"
| "pairsums [x] = [x]"
| "pairsums (x # y # zs) = (x + y) # pairsums zs"

fun adjsums :: "nat list \<Rightarrow> nat list" where
  "adjsums [] = []"
| "adjsums [x] = [x]"
| "adjsums (x # y # zs) = (x + y) # adjsums (y # zs)"

definition popcount_nat :: "nat \<Rightarrow> nat" where
  "popcount_nat X0 =
     (let X1 = X0 - ((X0 div 2) AND 0x55555555);
          X2 = (X1 AND 0x33333333) + ((X1 div 4) AND 0x33333333);
          X3 = (X2 + X2 div 16) AND 0x0f0f0f0f;
          X4 = X3 + X3 div 256;
          X5 = X4 + X4 div 65536
      in X5 AND 0x7f)"

definition word_bits :: "u32 \<Rightarrow> nat list" where
  "word_bits x = map (\<lambda>i. of_bool (bit x i)) [0..<32]"

definition set_bits :: "u32 \<Rightarrow> nat" where
  "set_bits x = sum_list (word_bits x)"

lemmas const_defs = lWord_def lLog2Word_def allBits_def MaxUint32_def m1_def m2_def m4_def

lemmas access_defs = word_at_def word_upd_def word_index_def bit_mask_def

lemmas op_defs = New_def Len_def Test_def grow_def Set_def Clear_def Flip_def wordsNeeded_def
  wordCount_def copy_words_def Clone_def Copy_def Count_def Equal_def Difference_def
  sortByLength_def Intersection_def Union_def SymmetricDifference_def isEven_def
  cleanLastWord_def String_def Complement_def

declare counted_loop.simps [simp del]

subsection \<open>Word counts\<close>

lemma unat_shift5: "unat (drop_bit 5 w) = unat w div 32" for w :: u32
proof -
  have "unat (drop_bit 5 w) = drop_bit 5 (unat w)"
    by (rule unat_drop_bit_eq)
  then show ?thesis
    by (simp add: drop_bit_eq_div)
qed

lemma unat_wordsNeeded:
  assumes "below_wrap k"
  shows "unat (wordsNeeded k) = (if k = 0 then 1 else (unat k + 31) div 32)"
proof -
  from assms have le: "unat k \<le> 4294967264"
    by (simp add: below_wrap_def word_le_nat_alt)
  then have "unat (k + 31) = unat k + 31"
    by (simp add: unat_word_ariths)
  moreover from le have "k \<noteq> MaxUint32"
    by (auto simp: MaxUint32_def)
  ultimately show ?thesis
    by (simp add: wordsNeeded_def lWord_def lLog2Word_def unat_shift5)
qed

lemma unat_wordsNeeded_max:
  assumes "below_wrap k"
  shows "unat (wordsNeeded k) = max 1 ((unat k + 31) div 32)"
proof (cases "k = 0")
  case True
  then show ?thesis
    by (simp add: wordsNeeded_def)
next
  case False
  then have "0 < unat k"
    by (simp add: unat_gt_0)
  then have "1 \<le> (unat k + 31) div 32"
    by simp
  with False assms show ?thesis
    by (simp add: unat_wordsNeeded)
qed

lemma wordsNeeded_le: "unat (wordsNeeded k) \<le> 134217727"
proof -
  have "unat (drop_bit 5 w) \<le> 134217727" for w :: u32
    using unsigned_less [of w, where 'a = nat]
    by (simp add: unat_shift5)
  then show ?thesis
    by (simp add: wordsNeeded_def lLog2Word_def)
qed

lemma wordsNeeded_mono:
  assumes "a \<le> c" "below_wrap c"
  shows "unat (wordsNeeded a) \<le> unat (wordsNeeded c)"
proof -
  from assms have "below_wrap a"
    by (simp add: below_wrap_def)
  moreover from assms have "unat a \<le> unat c"
    by (simp add: word_le_nat_alt)
  then have "(unat a + 31) div 32 \<le> (unat c + 31) div 32"
    by (intro div_le_mono) simp
  ultimately show ?thesis
    using assms by (simp add: unat_wordsNeeded_max)
qed

lemma word_index_less:
  assumes "i < k" "below_wrap k"
  shows "unat (word_index i) < unat (wordsNeeded k)"
proof -
  from assms have "unat i < unat k" "k \<noteq> 0"
    by (auto simp: word_less_nat_alt)
  then have "unat i div 32 < (unat k + 31) div 32"
    by (simp add: div_less_iff_less_mult less_eq_div_iff_mult_less_eq)
  with assms \<open>k \<noteq> 0\<close> show ?thesis
    by (simp add: unat_wordsNeeded word_index_def lLog2Word_def unat_shift5)
qed

lemma succ_below_wrap:
  assumes "i \<le> 0xFFFFFFDF"
  shows "below_wrap (i + 1)" and "i < i + 1" and "unat (i + 1) = Suc (unat i)"
proof -
  from assms have le: "unat i \<le> 4294967263"
    by (simp add: word_le_nat_alt)
  then show u: "unat (i + 1) = Suc (unat i)"
    by (simp add: unat_word_ariths)
  from le u show "below_wrap (i + 1)"
    by (simp add: below_wrap_def word_le_nat_alt)
  from u show "i < i + 1"
    by (simp add: word_less_nat_alt)
qed

lemma sized_New: "sized (New k)"
  by (simp add: sized_def New_def)

lemma sized_length_word: "sized bs \<Longrightarrow> word_of_nat (length (bs_b bs)) = wordsNeeded (bs_n bs)"
  by (simp add: sized_def)

lemma New_below_wrap:
  assumes "below_wrap k"
  shows "bs_n (New k) = k"
    and "length (bs_b (New k)) = max 1 ((unat k + 31) div 32)"
    and "\<forall>w \<in> set (bs_b (New k)). w = 0"
  using unat_wordsNeeded_max [OF assms] by (simp_all add: New_def)

text \<open>
  Claim C4, evaluated where it fails. The claim asks \<open>New n\<close> for
  \<open>max 1 (ceil (n / 32))\<close> words for every \<open>n\<close>, with no silent wrap-around. For
  \<open>n = 2^32 - 31\<close> the sum \<open>n + 31\<close> wraps to 0 and \<open>New\<close> returns a bitset of that length
  with no word at all, where 134217728 words are due; for \<open>n = 2^32 - 1\<close> the special
  case of \<open>wordsNeeded\<close> gives 134217727, one word short of 134217728. Up to
  \<open>n = 2^32 - 32\<close> the word count is as claimed (\<open>New_below_wrap\<close>).
\<close>

theorem New_word_count_wraps:
  "New 0xFFFFFFE1 = \<lparr>bs_n = 0xFFFFFFE1, bs_b = []\<rparr> \<and> wordsNeeded MaxUint32 = 134217727"
  by (simp add: New_def wordsNeeded_def const_defs)

subsection \<open>Single bits\<close>

lemma bit_mask_nonzero: "bit_mask i \<noteq> 0"
proof -
  have "unat (i AND 31) \<le> unat (31 :: u32)"
    by (rule word_and_le1 [THEN word_le_nat_alt [THEN iffD1]])
  then have "unat (i AND 31) < 32"
    by simp
  then have "bit (bit_mask i) (unat (i AND 31))"
    by (simp add: bit_mask_def lWord_def bit_simps)
  then show ?thesis
    by auto
qed

lemma bit_mask_bit: "bit (bit_mask i) (unat (i AND 31))"
proof -
  have "unat (i AND 31) \<le> unat (31 :: u32)"
    by (rule word_and_le1 [THEN word_le_nat_alt [THEN iffD1]])
  then have "unat (i AND 31) < 32"
    by simp
  then show ?thesis
    by (simp add: bit_mask_def lWord_def bit_simps)
qed

lemma or_mask_test: "(w OR bit_mask i) AND bit_mask i \<noteq> 0"
proof -
  have "(w OR bit_mask i) AND bit_mask i = bit_mask i"
    by (rule bit_eqI) (auto simp: bit_and_iff bit_or_iff)
  then show ?thesis
    by (simp add: bit_mask_nonzero)
qed

lemma or_xor_mask_test: "((w OR m) XOR m) AND m = 0" for w m :: u32
  by (rule bit_eqI) (auto simp: bit_and_iff bit_or_iff bit_xor_iff)

lemma grow_words:
  assumes "sized bs" "bs_n bs \<le> i" "i \<le> 0xFFFFFFDF"
  shows "grow bs i =
    \<lparr>bs_n = i + 1,
     bs_b = bs_b bs @ replicate (unat (wordsNeeded (i + 1)) - length (bs_b bs)) 0\<rparr>"
    and "length (bs_b bs) \<le> unat (wordsNeeded (i + 1))"
proof -
  let ?l = "word_of_nat (length (bs_b bs)) :: u32"
  let ?nsize = "wordsNeeded (i + 1)"
  have l: "?l = wordsNeeded (bs_n bs)"
    using assms(1) by (rule sized_length_word)
  have "bs_n bs \<le> i + 1"
    using assms(2) succ_below_wrap(2) [OF assms(3)] by simp
  then have mono: "unat (wordsNeeded (bs_n bs)) \<le> unat ?nsize"
    using succ_below_wrap(1) [OF assms(3)] by (rule wordsNeeded_mono)
  with assms(1) show "length (bs_b bs) \<le> unat ?nsize"
    by (simp add: sized_def)
  show "grow bs i =
    \<lparr>bs_n = i + 1, bs_b = bs_b bs @ replicate (unat ?nsize - length (bs_b bs)) 0\<rparr>"
  proof (cases "?l < ?nsize")
    case True
    then have "unat (?nsize - ?l) = unat ?nsize - unat ?l"
      by (simp add: unat_sub)
    with True assms(1) l show ?thesis
      by (simp add: grow_def Let_def sized_def)
  next
    case False
    with mono l have "unat ?nsize = unat ?l"
      by (simp add: word_less_nat_alt)
    with False assms(1) l show ?thesis
      by (simp add: grow_def Let_def sized_def)
  qed
qed

lemma grow_sized:
  assumes "sized bs" "bs_n bs \<le> i" "i \<le> 0xFFFFFFDF"
  shows "sized (grow bs i)"
  using grow_words [OF assms] by (simp add: sized_def)

text \<open>The state in which \<open>Set\<close> (and \<open>Flip\<close>) index the word of bit \<open>i\<close>.\<close>

lemma Set_index_ok:
  assumes "sized bs" "below_wrap (bs_n bs)" "i \<le> 0xFFFFFFDF"
  shows "unat (word_index i) < length (bs_b (if bs_n bs \<le> i then grow bs i else bs))"
proof (cases "bs_n bs \<le> i")
  case True
  have "unat (word_index i) < unat (wordsNeeded (i + 1))"
    using succ_below_wrap(2,1) [OF assms(3)] by (rule word_index_less)
  moreover have "length (bs_b (grow bs i)) = unat (wordsNeeded (i + 1))"
    using grow_sized [OF assms(1) True assms(3)] grow_words(1) [OF assms(1) True assms(3)]
    by (simp add: sized_def)
  ultimately show ?thesis
    using True by simp
next
  case False
  then have "i < bs_n bs"
    by simp
  then have "unat (word_index i) < unat (wordsNeeded (bs_n bs))"
    using assms(2) by (rule word_index_less)
  with False assms(1) show ?thesis
    by (simp add: sized_def)
qed

lemma Set_succeeds:
  assumes "sized bs" "below_wrap (bs_n bs)" "i \<le> 0xFFFFFFDF"
  shows "\<exists>bs'. Set bs i = Some bs' \<and> sized bs' \<and> below_wrap (bs_n bs')
           \<and> Test bs' i = Some True \<and> unat i + 1 \<le> unat (Len bs')
           \<and> unat (word_index i) < length (bs_b bs')
           \<and> bit (bs_b bs' ! unat (word_index i)) (unat (i AND 31))"
proof -
  let ?bs1 = "if bs_n bs \<le> i then grow bs i else bs"
  let ?k = "unat (word_index i)"
  let ?ws = "(bs_b ?bs1)[?k := bs_b ?bs1 ! ?k OR bit_mask i]"
  let ?bs' = "?bs1\<lparr>bs_b := ?ws\<rparr>"
  have idx: "?k < length (bs_b ?bs1)"
    using assms by (rule Set_index_ok)
  then have set: "Set bs i = Some ?bs'"
    by (simp add: Set_def Let_def word_upd_def)
  have sized1: "sized ?bs1"
    using assms grow_sized by simp
  then have sized': "sized ?bs'"
    by (simp add: sized_def)
  have n': "bs_n ?bs' = (if bs_n bs \<le> i then i + 1 else bs_n bs)"
    using grow_words(1) [OF assms(1) _ assms(3)] by simp
  have below: "below_wrap (bs_n ?bs')"
    using n' assms(2) succ_below_wrap(1) [OF assms(3)] by simp
  have less: "i < bs_n ?bs'"
    using n' succ_below_wrap(2) [OF assms(3)] by (simp add: not_le)
  then have len: "unat i + 1 \<le> unat (Len ?bs')"
    by (simp add: Len_def word_less_nat_alt)
  have at: "word_at (bs_b ?bs') (word_index i) = Some (bs_b ?bs1 ! ?k OR bit_mask i)"
    using idx by (simp add: word_at_def)
  from less have "\<not> bs_n ?bs' \<le> i"
    by (simp add: not_le)
  then have test: "Test ?bs' i = Some True"
    unfolding Test_def at by (simp add: or_mask_test bit_mask_nonzero)
  have "bit (bs_b ?bs' ! ?k) (unat (i AND 31))"
    using idx bit_mask_bit [of i] by (simp add: bit_or_iff)
  with set sized' below test len idx show ?thesis
    by (intro exI [of _ ?bs']) simp
qed

lemma Flip_grows_and_clears:
  assumes "sized bs" "bs_n bs \<le> i" "i \<le> 0xFFFFFFDF"
  shows "\<exists>bs'. Flip bs i = Some bs' \<and> Len bs' = i + 1 \<and> Test bs' i = Some False"
proof -
  let ?g = "grow bs i"
  let ?k = "unat (word_index i)"
  let ?w = "bs_b ?g ! ?k"
  let ?bs1 = "?g\<lparr>bs_b := (bs_b ?g)[?k := ?w OR bit_mask i]\<rparr>"
  let ?bs' = "?g\<lparr>bs_b := (bs_b ?g)[?k := (?w OR bit_mask i) XOR bit_mask i]\<rparr>"
  have "unat (word_index i) < unat (wordsNeeded (i + 1))"
    using succ_below_wrap(2,1) [OF assms(3)] by (rule word_index_less)
  moreover have "length (bs_b ?g) = unat (wordsNeeded (i + 1))"
    using grow_sized [OF assms] grow_words(1) [OF assms] by (simp add: sized_def)
  ultimately have idx: "?k < length (bs_b ?g)"
    by simp
  with assms(2) have "Set bs i = Some ?bs1"
    by (simp add: Set_def Let_def word_upd_def)
  with idx assms(2) have flip: "Flip bs i = Some ?bs'"
    by (simp add: Flip_def word_upd_def)
  have n': "bs_n ?bs' = i + 1"
    using grow_words(1) [OF assms] by simp
  then have "\<not> bs_n ?bs' \<le> i"
    using succ_below_wrap(2) [OF assms(3)] by (simp add: not_le)
  moreover have "word_at (bs_b ?bs') (word_index i) = Some ((?w OR bit_mask i) XOR bit_mask i)"
    using idx by (simp add: word_at_def)
  ultimately have "Test ?bs' i = Some False"
    unfolding Test_def by (simp add: or_xor_mask_test)
  with flip n' show ?thesis
    by (intro exI [of _ ?bs']) (simp add: Len_def)
qed

lemma word_index_near_max:
  assumes "0xFFFFFFE0 \<le> i"
  shows "unat (word_index i) = 134217727"
proof -
  from assms have "4294967264 \<le> unat i"
    by (simp add: word_le_nat_alt)
  moreover have "unat i < 4294967296"
    using unsigned_less [of i, where 'a = nat] by simp
  ultimately show ?thesis
    by (simp add: word_index_def lLog2Word_def unat_shift5)
qed

lemma grow_length_le:
  assumes "sized bs"
  shows "length (bs_b (grow bs i)) \<le> 134217727"
proof -
  let ?l = "word_of_nat (length (bs_b bs)) :: u32"
  let ?nsize = "wordsNeeded (i + 1)"
  have l: "?l = wordsNeeded (bs_n bs)"
    using assms by (rule sized_length_word)
  show ?thesis
  proof (cases "?l < ?nsize")
    case True
    then have "unat (?nsize - ?l) = unat ?nsize - unat ?l"
      by (simp add: unat_sub)
    moreover from True have "unat ?l \<le> unat ?nsize"
      by (simp add: word_less_nat_alt)
    ultimately have "length (bs_b (grow bs i)) = unat ?nsize"
      using True assms l by (simp add: grow_def Let_def sized_def)
    then show ?thesis
      using wordsNeeded_le [of "i + 1"] by simp
  next
    case False
    then have "length (bs_b (grow bs i)) = unat (wordsNeeded (bs_n bs))"
      using assms by (simp add: grow_def Let_def sized_def)
    then show ?thesis
      using wordsNeeded_le [of "bs_n bs"] by simp
  qed
qed

lemma Set_near_max_panics:
  assumes "sized bs" "0xFFFFFFE0 \<le> i"
  shows "Set bs i = None"
proof -
  let ?bs1 = "if bs_n bs \<le> i then grow bs i else bs"
  have "length (bs_b ?bs1) \<le> 134217727"
    using grow_length_le [OF assms(1)] assms(1) wordsNeeded_le [of "bs_n bs"]
    by (simp add: sized_def)
  then have "\<not> unat (word_index i) < length (bs_b ?bs1)"
    using word_index_near_max [OF assms(2)] by simp
  then show ?thesis
    by (simp add: Set_def Let_def word_upd_def)
qed

lemma Set_keeps_sized:
  assumes "sized bs" "Set bs i = Some bs'"
  shows "sized bs'"
proof (cases "bs_n bs \<le> i")
  case True
  have "\<not> 0xFFFFFFE0 \<le> i"
    using Set_near_max_panics [OF assms(1)] assms(2) by auto
  then have "i \<le> 0xFFFFFFDF"
    by (simp add: word_le_nat_alt)
  then have "sized (grow bs i)"
    using assms(1) True grow_sized by simp
  with assms(2) True show ?thesis
    by (auto simp: Set_def Let_def word_upd_def sized_def split: if_splits)
next
  case False
  with assms show ?thesis
    by (auto simp: Set_def Let_def word_upd_def sized_def split: if_splits)
qed

text \<open>
  Claim C9. For every bitset and every index \<open>i\<close> at or past the length, \<open>Test\<close> returns
  false without indexing any word, and \<open>Clear\<close> returns the bitset as it was: same
  length, same words.
\<close>

theorem out_of_range_Test_Clear:
  "bs_n bs \<le> i \<Longrightarrow> Test bs i = Some False \<and> Clear bs i = Some bs"
  by (simp add: Test_def Clear_def)

theorem out_of_range_Test_Clear_witness:
  "bs_n (New 32) \<le> 40 \<and> Test (New 32) 40 = Some False \<and> Clear (New 32) 40 = Some (New 32)"
  using out_of_range_Test_Clear [of "New 32" 40] by (simp add: New_def)

text \<open>
  Claim C1, evaluated where it fails. The claim says that \<open>Flip\<close> at an index at or past
  the length grows the bitset and leaves the bit set. On the empty bitset \<open>Flip 0\<close> does
  grow the length to 1, but \<open>Set\<close> has already set the bit when the exclusive-or that
  follows clears it again, so \<open>Test\<close> of that bit is false. The same happens at every
  index past the length (\<open>Flip_grows_and_clears\<close>).
\<close>

theorem Flip_past_length_clears_bit:
  "Flip (New 0) 0 = Some \<lparr>bs_n = 1, bs_b = [0]\<rparr> \<and> Test \<lparr>bs_n = 1, bs_b = [0]\<rparr> 0 = Some False"
  by (simp add: op_defs access_defs const_defs)

text \<open>
  Claim C3, evaluated where it fails. The claim says that \<open>Set\<close> succeeds at every index,
  also near the largest one. \<open>Set\<close> at \<open>2^32 - 2\<close> on the empty bitset asks
  \<open>wordsNeeded\<close> for the word count of \<open>2^32 - 1\<close> bits, gets 134217727, grows the slice to
  that many words and then indexes word 134217727, one past the end: the runtime
  panics. Every index from \<open>2^32 - 32\<close> on panics in this way on every bitset
  (\<open>Set_near_max_panics\<close>); below it \<open>Set\<close> succeeds on every bitset of length up to
  \<open>2^32 - 32\<close> (\<open>Set_succeeds\<close>).
\<close>

theorem Set_near_max_index_panics:
  "Set (New 0) 0xFFFFFFFE = None"
  by (simp add: op_defs access_defs const_defs)

text \<open>
  Claim C8, evaluated where it fails. The claim says that after \<open>Set i\<close>, for every \<open>i\<close>,
  \<open>Test i\<close> is true and the length is at least \<open>i + 1\<close>. At \<open>i = 2^32 - 32\<close> on a
  32-bit bitset the word count for \<open>i + 1\<close> bits wraps to 0, no word is appended, and
  the write to word 134217727 of a one-word slice panics: there is no state after
  the call. For \<open>i \<le> 2^32 - 33\<close> the claim holds as stated (\<open>Set_succeeds\<close>,
  \<open>grow_words\<close>).
\<close>

theorem Set_at_wrap_boundary_panics:
  "Set (New 32) 0xFFFFFFE0 = None"
  by (simp add: op_defs access_defs const_defs)

subsection \<open>The loops in closed form\<close>

lemma length_overlay: "length (overlay f i m xs ys rs) = length rs"
  by (simp add: overlay_def)

lemma overlay_empty: "m \<le> i \<Longrightarrow> overlay f i m xs ys rs = rs"
proof -
  assume "m \<le> i"
  then have "overlay f i m xs ys rs = map (\<lambda>k. rs ! k) [0..<length rs]"
    by (auto simp: overlay_def)
  then show ?thesis
    by (simp add: map_nth)
qed

lemma overlay_step:
  assumes "i < length rs"
  shows "overlay f (Suc i) m xs ys (rs[i := f (xs ! i) (ys ! i)]) =
         (if i < m then overlay f i m xs ys rs else rs[i := f (xs ! i) (ys ! i)])"
proof (cases "i < m")
  case True
  have "overlay f (Suc i) m xs ys (rs[i := f (xs ! i) (ys ! i)]) = overlay f i m xs ys rs"
    unfolding overlay_def using assms True
    by (auto simp: nth_list_update intro!: nth_equalityI)
  with True show ?thesis
    by simp
next
  case False
  then show ?thesis
    by (simp add: overlay_empty)
qed

lemma counted_loop_overlay:
  assumes "min (unat l) (unat szl) \<le> length xs"
    and "min (unat l) (unat szl) \<le> length ys"
    and "min (unat l) (unat szl) \<le> length rs"
  shows "counted_loop f i l szl xs ys rs =
         Some (overlay f (unat i) (min (unat l) (unat szl)) xs ys rs)"
  using assms
proof (induction f i l szl xs ys rs rule: counted_loop.induct)
  case (1 f i l szl xs ys rs)
  let ?m = "min (unat l) (unat szl)"
  show ?case
  proof (cases "i < l \<and> \<not> szl \<le> i")
    case True
    then have lt: "unat i < ?m"
      by (simp add: word_less_nat_alt word_le_nat_alt)
    with "1.prems" have idx: "unat i < length xs \<and> unat i < length ys \<and> unat i < length rs"
      by arith
    from True have "unat i + 1 < 2 ^ 32"
      using unsigned_less [of l, where 'a = nat] by (simp add: word_less_nat_alt)
    then have suc: "unat (i + 1) = Suc (unat i)"
      by (simp add: unat_word_ariths)
    let ?rs' = "rs[unat i := f (xs ! unat i) (ys ! unat i)]"
    have "counted_loop f (i + 1) l szl xs ys ?rs' = Some (overlay f (unat (i + 1)) ?m xs ys ?rs')"
      using True idx "1.prems" by (intro "1.IH") simp_all
    also have "overlay f (unat (i + 1)) ?m xs ys ?rs' = overlay f (unat i) ?m xs ys rs"
      unfolding suc using idx lt by (simp add: overlay_step)
    finally show ?thesis
      using True idx by (subst counted_loop.simps) simp
  next
    case False
    then have "?m \<le> unat i"
      by (auto simp: word_less_nat_alt word_le_nat_alt)
    then have "overlay f (unat i) ?m xs ys rs = rs"
      by (rule overlay_empty)
    with False show ?thesis
      by (subst counted_loop.simps) auto
  qed
qed

lemma intersection_loop_overlay:
  assumes "i + length ws \<le> length ys" "i + length ws \<le> length rs"
  shows "intersection_loop ws i ys rs =
         Some (overlay (AND) i (i + length ws) (replicate i 0 @ ws) ys rs)"
  using assms
proof (induction ws arbitrary: i rs)
  case Nil
  then show ?case
    by (simp add: overlay_empty)
next
  case (Cons w ws)
  let ?rs' = "rs[i := w AND ys ! i]"
  from Cons.prems have idx: "i < length ys" "i < length rs"
    by simp_all
  have "intersection_loop ws (Suc i) ys ?rs' =
        Some (overlay (AND) (Suc i) (Suc i + length ws) (replicate (Suc i) 0 @ ws) ys ?rs')"
    using Cons.prems by (intro Cons.IH) simp_all
  also have "overlay (AND) (Suc i) (Suc i + length ws) (replicate (Suc i) 0 @ ws) ys ?rs' =
        overlay (AND) i (i + length (w # ws)) (replicate i 0 @ w # ws) ys rs"
    unfolding overlay_def using idx
    by (auto simp: nth_list_update nth_append nth_Cons' intro!: nth_equalityI)
  finally show ?case
    using idx by simp
qed

lemma intersection_loop_result:
  assumes "length ws \<le> length ys" "length ws \<le> length rs"
  shows "intersection_loop ws 0 ys rs = Some (overlay (AND) 0 (length ws) ws ys rs)"
  using intersection_loop_overlay [of 0 ws ys rs] assms by simp

lemma complement_loop_result:
  assumes "i + length ws \<le> length rs"
  shows "complement_loop ws i rs = Some (take i rs @ map NOT ws @ drop (i + length ws) rs)"
  using assms
proof (induction ws arbitrary: i rs)
  case Nil
  then show ?case
    by simp
next
  case (Cons w ws)
  from Cons.prems have idx: "i < length rs"
    by simp
  have "complement_loop ws (Suc i) (rs[i := NOT w]) =
        Some (take (Suc i) (rs[i := NOT w]) @ map NOT ws @ drop (Suc i + length ws) (rs[i := NOT w]))"
    using Cons.prems by (intro Cons.IH) simp
  also have "take (Suc i) (rs[i := NOT w]) = take i rs @ [NOT w]"
    using idx by (simp add: take_Suc_conv_app_nth)
  finally show ?case
    using idx by simp
qed

lemma equal_loop_refl_aux:
  assumes "p + length vs \<le> length cs" "\<forall>k < length vs. cs ! (p + k) = vs ! k"
  shows "equal_loop vs p cs = Some True"
  using assms
proof (induction vs arbitrary: p)
  case Nil
  then show ?case
    by simp
next
  case (Cons v vs)
  from Cons.prems(2) have "cs ! p = v"
    by (auto dest: spec [of _ 0])
  moreover have "equal_loop vs (Suc p) cs = Some True"
  proof (rule Cons.IH)
    show "Suc p + length vs \<le> length cs"
      using Cons.prems(1) by simp
    show "\<forall>k<length vs. cs ! (Suc p + k) = vs ! k"
      using Cons.prems(2) by (auto dest: spec [of _ "Suc k" for k])
  qed
  ultimately show ?case
    using Cons.prems(1) by simp
qed

lemma equal_loop_same: "equal_loop vs 0 vs = Some True"
  by (rule equal_loop_refl_aux) simp_all

lemma Equal_same: "Equal x x = Some True"
  by (simp add: Equal_def equal_loop_same)

subsection \<open>Set algebra\<close>

lemma sized_unat_length: "sized bs \<Longrightarrow> unat (word_of_nat (length (bs_b bs)) :: u32) = length (bs_b bs)"
  by (simp add: sized_def)

lemma Clone_sized: "sized bs \<Longrightarrow> Clone bs = bs"
  by (simp add: Clone_def New_def copy_words_def sized_def)

lemma sortByLength_cases:
  assumes "sortByLength a c = (s, l)"
  shows "(s = a \<and> l = c \<or> s = c \<and> l = a) \<and> bs_n s \<le> bs_n l"
  using assms by (auto simp: sortByLength_def split: if_splits)

lemma sortByLength_swap: "bs_n a \<noteq> bs_n c \<Longrightarrow> sortByLength c a = sortByLength a c"
  by (auto simp: sortByLength_def)

lemma sortByLength_same: "bs_n a = bs_n c \<Longrightarrow> sortByLength a c = (a, c)"
  by (simp add: sortByLength_def)

lemma sorted_lengths:
  assumes "sized s" "sized l" "bs_n s \<le> bs_n l" "below_wrap (bs_n l)"
  shows "length (bs_b s) \<le> length (bs_b l)"
  using assms wordsNeeded_mono [of "bs_n s" "bs_n l"] by (simp add: sized_def)

lemma Difference_result:
  assumes "sized a" "sized c"
  shows "Difference a c =
    Some (a\<lparr>bs_b := overlay (\<lambda>x y. x AND NOT y) 0 (min (length (bs_b a)) (length (bs_b c)))
                      (bs_b a) (bs_b c) (bs_b a)\<rparr>)"
proof -
  have c: "unat (wordCount c) = length (bs_b c)"
    using assms(2) by (simp add: wordCount_def sized_def)
  show ?thesis
    unfolding Difference_def Let_def Clone_sized [OF assms(1)]
    by (subst counted_loop_overlay) (simp_all add: sized_unat_length [OF assms(1)] c)
qed

lemma Union_sorted_result:
  assumes "sized s" "sized l" "sortByLength a c = (s, l)"
  shows "Union a c =
    Some (l\<lparr>bs_b := overlay (OR) 0 (min (length (bs_b s)) (length (bs_b l)))
                      (bs_b s) (bs_b l) (bs_b l)\<rparr>)"
proof -
  have l: "unat (wordCount l) = length (bs_b l)"
    using assms(2) by (simp add: wordCount_def sized_def)
  show ?thesis
    unfolding Union_def assms(3) prod.case Let_def Clone_sized [OF assms(2)]
    by (subst counted_loop_overlay) (simp_all add: sized_unat_length [OF assms(1)] l)
qed

lemma SymmetricDifference_sorted_result:
  assumes "sized s" "sized l" "sortByLength a c = (s, l)" "length (bs_b s) \<le> length (bs_b l)"
  shows "SymmetricDifference a c =
    Some (l\<lparr>bs_b := overlay (XOR) 0 (length (bs_b s)) (bs_b s) (bs_b l) (bs_b l)\<rparr>)"
proof -
  have s: "unat (wordCount s) = length (bs_b s)"
    using assms(1) by (simp add: wordCount_def sized_def)
  show ?thesis
    unfolding SymmetricDifference_def assms(3) prod.case Let_def Clone_sized [OF assms(2)]
    using assms(4)
    by (subst counted_loop_overlay) (simp_all add: sized_unat_length [OF assms(1)] s)
qed

lemma Intersection_sorted_result:
  assumes "sized s" "sortByLength a c = (s, l)" "length (bs_b s) \<le> length (bs_b l)"
  shows "Intersection a c =
    Some \<lparr>bs_n = bs_n s,
          bs_b = overlay (AND) 0 (length (bs_b s)) (bs_b s) (bs_b l)
                   (replicate (length (bs_b s)) 0)\<rparr>"
proof -
  have "bs_b (New (bs_n s)) = replicate (length (bs_b s)) 0"
    using assms(1) by (simp add: New_def sized_def)
  then show ?thesis
    unfolding Intersection_def assms(2) prod.case Let_def
    using assms(3) by (subst intersection_loop_result) (simp_all add: New_def)
qed

lemma overlay_commute:
  assumes "\<And>x y. f x y = f y x" "length rs = m" "length rs' = m"
  shows "overlay f 0 m xs ys rs = overlay f 0 m ys xs rs'"
  using assms by (simp add: overlay_def)

lemma commutes_same:
  assumes "op a c = Some x" "op c a = Some x"
  shows "commutes op a c = Some True"
  using assms by (simp add: commutes_def Equal_same)

lemma Union_commutes:
  assumes "sized a" "sized c"
  shows "commutes Union a c = Some True"
proof (cases "bs_n a = bs_n c")
  case True
  then have len: "length (bs_b a) = length (bs_b c)"
    using assms by (simp add: sized_def)
  have "Union a c = Some (c\<lparr>bs_b := overlay (OR) 0 (length (bs_b c)) (bs_b a) (bs_b c) (bs_b c)\<rparr>)"
    using Union_sorted_result [OF assms sortByLength_same [OF True]] len by simp
  moreover have "Union c a = Some (a\<lparr>bs_b := overlay (OR) 0 (length (bs_b c)) (bs_b c) (bs_b a) (bs_b a)\<rparr>)"
    using Union_sorted_result [OF assms(2,1) sortByLength_same [OF True [symmetric]]] len by simp
  moreover have "overlay (OR) 0 (length (bs_b c)) (bs_b a) (bs_b c) (bs_b c) =
      overlay (OR) 0 (length (bs_b c)) (bs_b c) (bs_b a) (bs_b a)"
    using len by (intro overlay_commute) (simp_all add: or.commute)
  ultimately show ?thesis
    using True by (intro commutes_same [where x = "c\<lparr>bs_b := overlay (OR) 0 (length (bs_b c)) (bs_b a) (bs_b c) (bs_b c)\<rparr>"]) simp_all
next
  case False
  obtain s l where sl: "sortByLength a c = (s, l)"
    by (cases "sortByLength a c")
  then have "sized s" "sized l"
    using assms sortByLength_cases [OF sl] by auto
  then show ?thesis
    using Union_sorted_result [OF _ _ sl] Union_sorted_result [OF _ _ sl [folded sortByLength_swap [OF False]]]
    by (intro commutes_same) simp_all
qed

lemma Intersection_commutes:
  assumes "sized a" "sized c" "below_wrap (bs_n a)" "below_wrap (bs_n c)"
  shows "commutes Intersection a c = Some True"
proof (cases "bs_n a = bs_n c")
  case True
  then have len: "length (bs_b a) = length (bs_b c)"
    using assms by (simp add: sized_def)
  let ?L = "length (bs_b c)"
  have "Intersection a c =
      Some \<lparr>bs_n = bs_n a, bs_b = overlay (AND) 0 ?L (bs_b a) (bs_b c) (replicate ?L 0)\<rparr>"
    using Intersection_sorted_result [OF assms(1) sortByLength_same [OF True]] len by simp
  moreover have "Intersection c a =
      Some \<lparr>bs_n = bs_n c, bs_b = overlay (AND) 0 ?L (bs_b c) (bs_b a) (replicate ?L 0)\<rparr>"
    using Intersection_sorted_result [OF assms(2) sortByLength_same [OF True [symmetric]]] len
    by simp
  moreover have "overlay (AND) 0 ?L (bs_b a) (bs_b c) (replicate ?L 0) =
      overlay (AND) 0 ?L (bs_b c) (bs_b a) (replicate ?L 0)"
    by (intro overlay_commute) (simp_all add: and.commute)
  ultimately show ?thesis
    using True by (intro commutes_same) simp_all
next
  case False
  obtain s l where sl: "sortByLength a c = (s, l)"
    by (cases "sortByLength a c")
  then have "sized s" "sized l" "bs_n s \<le> bs_n l" "below_wrap (bs_n l)"
    using assms sortByLength_cases [OF sl] by auto
  then have "length (bs_b s) \<le> length (bs_b l)"
    by (rule sorted_lengths)
  with \<open>sized s\<close> show ?thesis
    using Intersection_sorted_result [OF _ sl]
      Intersection_sorted_result [OF _ sl [folded sortByLength_swap [OF False]]]
    by (intro commutes_same) simp_all
qed

lemma SymmetricDifference_commutes:
  assumes "sized a" "sized c" "below_wrap (bs_n a)" "below_wrap (bs_n c)"
  shows "commutes SymmetricDifference a c = Some True"
proof (cases "bs_n a = bs_n c")
  case True
  then have len: "length (bs_b a) = length (bs_b c)"
    using assms by (simp add: sized_def)
  let ?L = "length (bs_b c)"
  have "SymmetricDifference a c =
      Some (c\<lparr>bs_b := overlay (XOR) 0 ?L (bs_b a) (bs_b c) (bs_b c)\<rparr>)"
    using SymmetricDifference_sorted_result [OF assms(1,2) sortByLength_same [OF True]] len
    by simp
  moreover have "SymmetricDifference c a =
      Some (a\<lparr>bs_b := overlay (XOR) 0 ?L (bs_b c) (bs_b a) (bs_b a)\<rparr>)"
    using SymmetricDifference_sorted_result [OF assms(2,1) sortByLength_same [OF True [symmetric]]]
      len by simp
  moreover have "overlay (XOR) 0 ?L (bs_b a) (bs_b c) (bs_b c) =
      overlay (XOR) 0 ?L (bs_b c) (bs_b a) (bs_b a)"
    using len by (intro overlay_commute) (simp_all add: xor.commute)
  ultimately show ?thesis
    using True by (intro commutes_same [where x = "c\<lparr>bs_b := overlay (XOR) 0 ?L (bs_b a) (bs_b c) (bs_b c)\<rparr>"]) simp_all
next
  case False
  obtain s l where sl: "sortByLength a c = (s, l)"
    by (cases "sortByLength a c")
  then have sla: "sized s" "sized l" "bs_n s \<le> bs_n l" "below_wrap (bs_n l)"
    using assms sortByLength_cases [OF sl] by auto
  then have "length (bs_b s) \<le> length (bs_b l)"
    by (rule sorted_lengths)
  with sla(1,2) show ?thesis
    using SymmetricDifference_sorted_result [OF _ _ sl]
      SymmetricDifference_sorted_result [OF _ _ sl [folded sortByLength_swap [OF False]]]
    by (intro commutes_same) simp_all
qed

lemma set_algebra_commutes:
  assumes "sized a" "sized c" "below_wrap (bs_n a)" "below_wrap (bs_n c)"
  shows "commutes Union a c = Some True \<and> commutes Intersection a c = Some True
         \<and> commutes SymmetricDifference a c = Some True"
  using assms Union_commutes Intersection_commutes SymmetricDifference_commutes by simp

lemma set_algebra_in_bounds:
  assumes "sized a" "sized c" "below_wrap (bs_n a)" "below_wrap (bs_n c)"
    and "sortByLength a c = (s, l)"
  shows "length (bs_b s) \<le> length (bs_b l) \<and> Intersection a c \<noteq> None \<and> Union a c \<noteq> None
         \<and> SymmetricDifference a c \<noteq> None \<and> Difference a c \<noteq> None"
proof -
  have sla: "sized s" "sized l" "bs_n s \<le> bs_n l" "below_wrap (bs_n l)"
    using assms sortByLength_cases [OF assms(5)] by auto
  then have len: "length (bs_b s) \<le> length (bs_b l)"
    by (rule sorted_lengths)
  show ?thesis
    using len Intersection_sorted_result [OF sla(1) assms(5) len]
      Union_sorted_result [OF sla(1,2) assms(5)]
      SymmetricDifference_sorted_result [OF sla(1,2) assms(5) len]
      Difference_result [OF assms(1,2)]
    by simp
qed

text \<open>
  Claim C10, evaluated where it fails. The claim says that for bitsets built by the
  constructor the shorter operand, after sorting by length, never has more words
  than the longer one, so that no binary operation indexes outside a word sequence.
  \<open>New (2^32 - 31)\<close> has no word, \<open>New 1\<close> has one; sorted by length \<open>New 1\<close> is the
  shorter, and \<open>Intersection\<close> reads word 0 of the longer operand, which does not
  exist. For lengths up to \<open>2^32 - 32\<close> the claim holds (\<open>set_algebra_in_bounds\<close>).
\<close>

theorem shorter_operand_has_more_words:
  "sortByLength (New 0xFFFFFFE1) (New 1) = (New 1, New 0xFFFFFFE1)
   \<and> length (bs_b (New 1)) = 1 \<and> length (bs_b (New 0xFFFFFFE1)) = 0
   \<and> Intersection (New 0xFFFFFFE1) (New 1) = None"
  by (simp add: op_defs access_defs const_defs word_le_nat_alt)

text \<open>
  Claim C5, evaluated where it fails. The claim says that \<open>a.op(b).Equal(b.op(a))\<close> holds
  for all bitsets and each of union, intersection and symmetric difference. With
  \<open>a = New 32\<close> and \<open>b = New (2^32 - 30)\<close>, which has no word, \<open>Intersection\<close> and
  \<open>SymmetricDifference\<close> panic on word 0 of \<open>b\<close> in either order, so the comparison is
  never reached. For lengths up to \<open>2^32 - 32\<close> all three operations commute
  (\<open>set_algebra_commutes\<close>), and \<open>Union\<close> commutes at every length (\<open>Union_commutes\<close>).
\<close>

theorem commutes_panics_on_wrapped_length:
  "commutes Intersection (New 32) (New 0xFFFFFFE2) = None
   \<and> commutes SymmetricDifference (New 32) (New 0xFFFFFFE2) = None"
  by (simp add: commutes_def op_defs access_defs const_defs counted_loop.simps)

subsection \<open>Population count\<close>

lemma and_peel:
  fixes a c q n :: nat
  assumes "a < 2 ^ k" "c < 2 ^ k"
  shows "(a + 2 ^ k * q) AND (c + 2 ^ k * n) = (a AND c) + 2 ^ k * (q AND n)"
proof -
  let ?X = "a + 2 ^ k * q" and ?Y = "c + 2 ^ k * n"
  have "take_bit k ?X = a" "take_bit k ?Y = c"
    using assms by (simp_all add: take_bit_eq_mod)
  then have t: "take_bit k (?X AND ?Y) = a AND c"
    by (simp only: take_bit_and)
  have "drop_bit k ?X = q" "drop_bit k ?Y = n"
    using assms by (simp_all add: drop_bit_eq_div)
  then have d: "drop_bit k (?X AND ?Y) = q AND n"
    by (simp only: drop_bit_and)
  have "?X AND ?Y = push_bit k (drop_bit k (?X AND ?Y)) + take_bit k (?X AND ?Y)"
    by (simp only: bits_ident)
  also have "\<dots> = push_bit k (q AND n) + (a AND c)"
    by (simp only: t d)
  finally show ?thesis
    by (simp add: push_bit_eq_mult)
qed

lemma and_low_mask:
  fixes a :: nat
  assumes "a < 2 ^ k"
  shows "(a + 2 ^ k * q) AND (2 ^ k - 1) = a"
proof -
  have "(a + 2 ^ k * q) AND mask k = take_bit k (a + 2 ^ k * q)"
    by (simp add: take_bit_eq_mask)
  also have "\<dots> = a"
    using assms by (simp add: take_bit_eq_mod)
  finally show ?thesis
    by (simp add: mask_eq_exp_minus_1)
qed

lemma pair_less:
  fixes x y :: nat
  assumes "x < 2 ^ w" "y < 2 ^ w"
  shows "x + 2 ^ w * y < 2 ^ (w + w)"
proof -
  have "x + 2 ^ w * y < 2 ^ w + 2 ^ w * y"
    using assms by simp
  also have "\<dots> = 2 ^ w * (y + 1)"
    by simp
  also have "\<dots> \<le> 2 ^ w * 2 ^ w"
    using assms by (intro mult_le_mono2) simp
  finally show ?thesis
    by (simp add: power_add)
qed

text \<open>Masking with \<open>2^w - 1\<close> in every other digit keeps the digits at even positions.\<close>

lemma val_evens:
  assumes "\<forall>d \<in> set ds. d < 2 ^ w"
  shows "val (2 ^ w) ds AND val (2 ^ (w + w)) (replicate (length (evens ds)) (2 ^ w - 1)) =
         val (2 ^ (w + w)) (evens ds)"
  using assms
proof (induction ds rule: evens.induct)
  case 1
  then show ?case
    by simp
next
  case (2 x)
  then show ?case
    using and_low_mask [of x w 0] by simp
next
  case (3 x y zs)
  let ?B = "2 ^ w :: nat"
  let ?C = "2 ^ (w + w) :: nat"
  let ?M = "val ?C (replicate (length (evens zs)) (?B - 1))"
  from 3 have x: "x < ?B" and y: "y < ?B" and zs: "\<forall>d \<in> set zs. d < ?B"
    by simp_all
  have IH: "val ?B zs AND ?M = val ?C (evens zs)"
    using zs by (rule "3.IH")
  have low: "x + ?B * y < ?C"
    using x y by (rule pair_less)
  have "?B \<le> ?C"
    by (intro power_increasing) simp_all
  moreover have "?B - 1 < ?B"
    by simp
  ultimately have m: "?B - 1 < ?C"
    by (rule less_le_trans [rotated])
  have C: "?C = ?B * ?B"
    by (simp add: power_add)
  have v: "val ?B (x # y # zs) = (x + ?B * y) + ?C * val ?B zs"
    unfolding C by (simp add: algebra_simps)
  have r: "val ?C (replicate (length (evens (x # y # zs))) (?B - 1)) = (?B - 1) + ?C * ?M"
    by simp
  have "val ?B (x # y # zs) AND val ?C (replicate (length (evens (x # y # zs))) (?B - 1)) =
      ((x + ?B * y) AND (?B - 1)) + ?C * (val ?B zs AND ?M)"
    unfolding v r using low m by (rule and_peel)
  also have "(x + ?B * y) AND (?B - 1) = x"
    using x by (rule and_low_mask)
  finally show ?case
    using IH by simp
qed

lemma val_div:
  assumes "ds \<noteq> [] \<longrightarrow> hd ds < B"
  shows "val B ds div B = val B (tl ds)"
  using assms by (cases ds) simp_all

lemma val_evens_Cons: "val C (evens (y # zs)) = y + C * val C (evens (tl zs))"
  by (cases zs) simp_all

lemma val_pairsums: "val C (evens ds) + val C (evens (tl ds)) = val C (pairsums ds)"
proof (induction ds rule: pairsums.induct)
  case (3 x y zs)
  have "val C (evens (x # y # zs)) + val C (evens (tl (x # y # zs))) =
        (x + y) + C * (val C (evens zs) + val C (evens (tl zs)))"
    by (simp add: val_evens_Cons algebra_simps)
  also have "\<dots> = (x + y) + C * val C (pairsums zs)"
    by (simp only: "3.IH")
  finally show ?case
    by simp
qed simp_all

lemma val_split: "val B ds = val (B * B) (evens ds) + B * val (B * B) (evens (tl ds))"
proof (induction ds rule: pairsums.induct)
  case (3 x y zs)
  have "val B (x # y # zs) = x + B * y + B * B * val B zs"
    by (simp add: algebra_simps)
  also have "\<dots> = x + B * y +
      B * B * (val (B * B) (evens zs) + B * val (B * B) (evens (tl zs)))"
    by (simp only: "3.IH" [symmetric])
  also have "\<dots> = val (B * B) (evens (x # y # zs)) +
      B * val (B * B) (evens (tl (x # y # zs)))"
    by (simp add: val_evens_Cons algebra_simps)
  finally show ?case .
qed simp_all

lemma val_adjsums: "val B ds + val B (tl ds) = val B (adjsums ds)"
proof (induction ds rule: adjsums.induct)
  case (3 x y zs)
  have "val B (x # y # zs) + val B (tl (x # y # zs)) =
        (x + y) + B * (val B (y # zs) + val B (tl (y # zs)))"
    by (simp add: algebra_simps)
  also have "\<dots> = (x + y) + B * val B (adjsums (y # zs))"
    by (simp only: "3.IH")
  finally show ?case
    by simp
qed simp_all

lemma evens_adjsums: "even (length ds) \<Longrightarrow> evens (adjsums ds) = pairsums ds"
proof (induction ds rule: pairsums.induct)
  case (3 x y zs)
  then show ?case
    by (cases zs) simp_all
qed simp_all

lemma length_evens: "length (evens ds) = (length ds + 1) div 2"
  by (induction ds rule: evens.induct) simp_all

lemma length_pairsums: "length (pairsums ds) = (length ds + 1) div 2"
  by (induction ds rule: pairsums.induct) simp_all

lemma length_adjsums: "length (adjsums ds) = length ds"
  by (induction ds rule: adjsums.induct) simp_all

lemma sum_list_pairsums: "sum_list (pairsums ds) = sum_list ds"
  by (induction ds rule: pairsums.induct) simp_all

lemma pairsums_le: "\<forall>d \<in> set ds. d \<le> c \<Longrightarrow> \<forall>d \<in> set (pairsums ds). d \<le> 2 * c"
  by (induction ds rule: pairsums.induct) auto

lemma adjsums_le: "\<forall>d \<in> set ds. d \<le> c \<Longrightarrow> \<forall>d \<in> set (adjsums ds). d \<le> 2 * c"
  by (induction ds rule: adjsums.induct) auto

lemma tl_less: "\<forall>d \<in> set ds. d < B \<Longrightarrow> \<forall>d \<in> set (tl ds). d < (B :: nat)"
  by (cases ds) simp_all

text \<open>The three masked steps on digit lists of even length.\<close>

lemma step_sub:
  assumes "\<forall>d \<in> set ds. d < 2" "length ds = 2 * n"
  shows "val 2 ds - ((val 2 ds div 2) AND val 4 (replicate n 1)) = val 4 (pairsums ds)"
proof -
  have hd: "ds \<noteq> [] \<longrightarrow> hd ds < 2"
    using assms(1) by (cases ds) simp_all
  have n: "length (evens (tl ds)) = n"
    using assms(2) by (simp add: length_evens)
  have "val (2 ^ 1) (tl ds) AND val (2 ^ (1 + 1)) (replicate (length (evens (tl ds))) (2 ^ 1 - 1)) =
        val (2 ^ (1 + 1)) (evens (tl ds))"
    using tl_less [OF assms(1)] by (intro val_evens) simp
  then have odd: "(val 2 ds div 2) AND val 4 (replicate n 1) = val 4 (evens (tl ds))"
    by (simp add: n val_div [OF hd])
  have "val 2 ds = val 4 (evens ds) + 2 * val 4 (evens (tl ds))"
    using val_split [of 2 ds] by simp
  then have "val 2 ds - val 4 (evens (tl ds)) = val 4 (evens ds) + val 4 (evens (tl ds))"
    by simp
  then show ?thesis
    using odd by (simp add: val_pairsums)
qed

lemma step_add:
  assumes "\<forall>d \<in> set ds. d < 4" "length ds = 2 * n"
  shows "(val 4 ds AND val 16 (replicate n 3)) + ((val 4 ds div 4) AND val 16 (replicate n 3)) =
         val 16 (pairsums ds)"
proof -
  have hd: "ds \<noteq> [] \<longrightarrow> hd ds < 4"
    using assms(1) by (cases ds) simp_all
  have n: "length (evens (tl ds)) = n" "length (evens ds) = n"
    using assms(2) by (simp_all add: length_evens)
  have "val (2 ^ 2) (tl ds) AND val (2 ^ (2 + 2)) (replicate (length (evens (tl ds))) (2 ^ 2 - 1)) =
        val (2 ^ (2 + 2)) (evens (tl ds))"
    using tl_less [OF assms(1)] by (intro val_evens) simp
  then have odd: "(val 4 ds div 4) AND val 16 (replicate n 3) = val 16 (evens (tl ds))"
    by (simp add: n val_div [OF hd])
  have "val (2 ^ 2) ds AND val (2 ^ (2 + 2)) (replicate (length (evens ds)) (2 ^ 2 - 1)) =
        val (2 ^ (2 + 2)) (evens ds)"
    using assms(1) by (intro val_evens) simp
  then have even: "val 4 ds AND val 16 (replicate n 3) = val 16 (evens ds)"
    by (simp add: n)
  show ?thesis
    by (simp only: odd even val_pairsums)
qed

lemma step_mask:
  assumes "\<forall>d \<in> set ds. d \<le> 4" "length ds = 2 * n"
  shows "(val 16 ds + val 16 ds div 16) AND val 256 (replicate n 15) = val 256 (pairsums ds)"
proof -
  have hd: "ds \<noteq> [] \<longrightarrow> hd ds < 16"
    using assms(1) by (cases ds) auto
  have "val 16 ds + val 16 ds div 16 = val 16 (adjsums ds)"
    by (simp add: val_div [OF hd] val_adjsums)
  moreover have "\<forall>d \<in> set (adjsums ds). d < 2 ^ 4"
    using adjsums_le [OF assms(1)] by fastforce
  then have "val (2 ^ 4) (adjsums ds) AND
      val (2 ^ (4 + 4)) (replicate (length (evens (adjsums ds))) (2 ^ 4 - 1)) =
      val (2 ^ (4 + 4)) (evens (adjsums ds))"
    by (rule val_evens)
  moreover have "evens (adjsums ds) = pairsums ds"
    using assms(2) by (intro evens_adjsums) simp
  moreover have "length (pairsums ds) = n"
    using assms(2) by (simp add: length_pairsums)
  ultimately show ?thesis
    by simp
qed

lemma replicate_unfold:
  "replicate 16 x = [x, x, x, x, x, x, x, x, x, x, x, x, x, x, x, x]"
  "replicate 8 x = [x, x, x, x, x, x, x, x]"
  "replicate 4 x = [x, x, x, x]"
  by (simp_all add: eval_nat_numeral)

lemma mask_vals:
  "val 4 (replicate 16 1) = 0x55555555"
  "val 16 (replicate 8 3) = 0x33333333"
  "val 256 (replicate 4 15) = 0x0f0f0f0f"
  by (simp_all add: replicate_unfold)

lemma div_peel:
  fixes a q :: nat
  assumes "a < B"
  shows "(a + B * q) div B = q"
  using assms by simp

lemma length4E:
  assumes "length (es :: nat list) = 4"
  obtains e0 e1 e2 e3 where "es = [e0, e1, e2, e3]"
  using assms by (auto simp: length_Suc_conv eval_nat_numeral)

lemma tail_steps:
  fixes e0 e1 e2 e3 :: nat
  assumes "e0 \<le> 8" "e1 \<le> 8" "e2 \<le> 8" "e3 \<le> 8"
  shows "(let X4 = val 256 [e0, e1, e2, e3] + val 256 [e0, e1, e2, e3] div 256;
              X5 = X4 + X4 div 65536
          in X5 AND 0x7f) = e0 + e1 + e2 + e3"
proof -
  define Q3 where "Q3 = e1 + 256 * (e2 + 256 * e3)"
  define X3 where "X3 = e0 + 256 * Q3"
  have v: "val 256 [e0, e1, e2, e3] = X3"
    by (simp add: X3_def Q3_def)
  have "e0 < 256"
    using assms(1) by simp
  then have d3: "X3 div 256 = Q3"
    unfolding X3_def by (rule div_peel)
  define Q4 where "Q4 = e2 + e3 + 256 * e3"
  define R4 where "R4 = e0 + e1 + 256 * (e1 + e2)"
  have X4: "X3 + X3 div 256 = R4 + 65536 * Q4"
    unfolding d3 by (simp add: X3_def Q3_def Q4_def R4_def)
  have "R4 < 65536"
    using assms by (simp add: R4_def)
  then have d4: "(R4 + 65536 * Q4) div 65536 = Q4"
    by (rule div_peel)
  define T where "T = e0 + e1 + e2 + e3"
  define Q5 where "Q5 = 2 * (e1 + e2 + e3) + 512 * (e2 + e3) + 131072 * e3"
  have X5: "R4 + 65536 * Q4 + Q4 = T + 2 ^ 7 * Q5"
    by (simp add: R4_def Q4_def T_def Q5_def)
  have "T < 2 ^ 7"
    using assms by (simp add: T_def)
  then have "(T + 2 ^ 7 * Q5) AND (2 ^ 7 - 1) = T"
    by (rule and_low_mask)
  then have "(R4 + 65536 * Q4 + Q4) AND 0x7f = T"
    unfolding X5 by simp
  then show ?thesis
    unfolding v Let_def X4 d4 by (simp add: T_def)
qed

lemma popcount_nat_bits:
  assumes "\<forall>d \<in> set ds. d < 2" "length ds = 32"
  shows "popcount_nat (val 2 ds) = sum_list ds"
proof -
  define ds1 where "ds1 = pairsums ds"
  define ds2 where "ds2 = pairsums ds1"
  define ds3 where "ds3 = pairsums ds2"
  have le0: "\<forall>d \<in> set ds. d \<le> 1"
    using assms(1) by auto
  have len1: "length ds1 = 16" and le1: "\<forall>d \<in> set ds1. d \<le> 2"
    using pairsums_le [OF le0] assms(2) by (simp_all add: ds1_def length_pairsums)
  have len2: "length ds2 = 8" and le2: "\<forall>d \<in> set ds2. d \<le> 4"
    using pairsums_le [OF le1] len1 by (simp_all add: ds2_def length_pairsums)
  have len3: "length ds3 = 4" and le3: "\<forall>d \<in> set ds3. d \<le> 8"
    using pairsums_le [OF le2] len2 by (simp_all add: ds3_def length_pairsums)
  have lt1: "\<forall>d \<in> set ds1. d < 4"
    using le1 by fastforce
  have s1: "val 2 ds - ((val 2 ds div 2) AND 0x55555555) = val 4 ds1"
    using step_sub [OF assms(1), of 16] assms(2) unfolding mask_vals by (simp add: ds1_def)
  have s2: "(val 4 ds1 AND 0x33333333) + ((val 4 ds1 div 4) AND 0x33333333) = val 16 ds2"
    using step_add [OF lt1, of 8] len1 unfolding mask_vals by (simp add: ds2_def)
  have s3: "(val 16 ds2 + val 16 ds2 div 16) AND 0x0f0f0f0f = val 256 ds3"
    using step_mask [OF le2, of 4] len2 unfolding mask_vals by (simp add: ds3_def)
  obtain e0 e1 e2 e3 where es: "ds3 = [e0, e1, e2, e3]"
    using len3 by (rule length4E)
  with le3 have "e0 \<le> 8" "e1 \<le> 8" "e2 \<le> 8" "e3 \<le> 8"
    by simp_all
  then have "(let X4 = val 256 ds3 + val 256 ds3 div 256; X5 = X4 + X4 div 65536 in X5 AND 0x7f)
      = e0 + e1 + e2 + e3"
    unfolding es by (rule tail_steps)
  then have "popcount_nat (val 2 ds) = sum_list ds3"
    unfolding popcount_nat_def Let_def s1 s2 s3 by (simp add: es Let_def)
  then show ?thesis
    by (simp add: ds3_def ds2_def ds1_def sum_list_pairsums)
qed

lemma val_of_bool: "val 2 (map of_bool bs) = horner_sum of_bool 2 bs"
  by (induction bs) simp_all

lemma val_word_bits: "val 2 (word_bits x) = unat x"
proof -
  have "word_bits x = map of_bool (map (bit (unat x)) [0..<32])"
    by (simp add: word_bits_def bit_unsigned_iff)
  then have "val 2 (word_bits x) = take_bit 32 (unat x)"
    by (simp only: val_of_bool horner_sum_bit_eq_take_bit)
  also have "\<dots> = unat x"
    using unsigned_less [of x, where 'a = nat] by (intro take_bit_nat_eq_self) simp
  finally show ?thesis .
qed

lemma word_bits_props: "\<forall>d \<in> set (word_bits x). d < 2" "length (word_bits x) = 32"
  by (auto simp: word_bits_def)

lemma popcount_nat_unat: "popcount_nat (unat x) = set_bits x"
  using popcount_nat_bits [OF word_bits_props, of x] by (simp add: val_word_bits set_bits_def)

lemma unat_shift: "unat (drop_bit k x) = unat x div 2 ^ k" for x :: u32
proof -
  have "unat (drop_bit k x) = drop_bit k (unat x)"
    by (rule unat_drop_bit_eq)
  then show ?thesis
    by (simp add: drop_bit_eq_div)
qed

lemma unat_and: "unat (x AND y) = unat x AND unat y" for x y :: u32
  by (rule unsigned_and_eq)

lemma unat_add_small:
  fixes x y :: u32
  assumes "unat x + unat y < 4294967296"
  shows "unat (x + y) = unat x + unat y"
  using assms unat_add_lem [of x y] by simp

lemma and_le_right: "a AND b \<le> b" for a b :: nat
  by (metis AND_upper2 nat_int_comparison(3) of_nat_0_le_iff of_nat_and_eq)

lemma and_le_left: "a AND b \<le> a" for a b :: nat
  by (metis AND_upper1 nat_int_comparison(3) of_nat_0_le_iff of_nat_and_eq)

lemma unat_popCountUint32: "unat (popCountUint32 x) = popcount_nat (unat x)"
proof -
  define X0 where "X0 = unat x"
  define a1 where "a1 = drop_bit 1 x AND m1"
  define x1 where "x1 = x - a1"
  define x2 where "x2 = (x1 AND m2) + (drop_bit 2 x1 AND m2)"
  define s3 where "s3 = x2 + drop_bit 4 x2"
  define x3 where "x3 = s3 AND m4"
  define x4 where "x4 = x3 + drop_bit 8 x3"
  define x5 where "x5 = x4 + drop_bit 16 x4"
  define X1 where "X1 = X0 - ((X0 div 2) AND 0x55555555)"
  define X2 where "X2 = (X1 AND 0x33333333) + ((X1 div 4) AND 0x33333333)"
  define X3 where "X3 = (X2 + X2 div 16) AND 0x0f0f0f0f"
  define X4 where "X4 = X3 + X3 div 256"
  define X5 where "X5 = X4 + X4 div 65536"
  have a1: "unat a1 = (X0 div 2) AND 0x55555555"
    by (simp add: a1_def X0_def unat_and unat_shift m1_def)
  have "unat a1 \<le> X0 div 2"
    unfolding a1 by (rule and_le_left)
  then have "unat a1 \<le> unat x"
    by (simp add: X0_def)
  then have "a1 \<le> x"
    by (simp add: word_le_nat_alt)
  then have u1: "unat x1 = X1"
    by (simp add: x1_def X1_def unat_sub a1 X0_def)
  have l2: "unat (x1 AND m2) = X1 AND 0x33333333"
    and r2: "unat (drop_bit 2 x1 AND m2) = (X1 div 4) AND 0x33333333"
    by (simp_all add: unat_and unat_shift m2_def u1)
  have "X1 AND 0x33333333 \<le> 0x33333333" "(X1 div 4) AND 0x33333333 \<le> 0x33333333"
    by (rule and_le_right)+
  then have "unat (x1 AND m2) + unat (drop_bit 2 x1 AND m2) < 4294967296"
    unfolding l2 r2 by simp
  then have u2: "unat x2 = X2"
    unfolding x2_def X2_def by (simp only: unat_add_small l2 r2)
  have b2: "X2 \<le> 1717986918"
    unfolding X2_def using \<open>X1 AND 0x33333333 \<le> 0x33333333\<close>
      \<open>(X1 div 4) AND 0x33333333 \<le> 0x33333333\<close> by simp
  have "unat x2 + unat (drop_bit 4 x2) < 4294967296"
    using b2 by (simp add: unat_shift u2)
  then have "unat s3 = X2 + X2 div 16"
    unfolding s3_def by (simp add: unat_add_small unat_shift u2)
  then have u3: "unat x3 = X3"
    by (simp add: x3_def X3_def unat_and m4_def)
  have b3: "X3 \<le> 0x0f0f0f0f"
    unfolding X3_def by (rule and_le_right)
  then have "unat x3 + unat (drop_bit 8 x3) < 4294967296"
    by (simp add: unat_shift u3)
  then have u4: "unat x4 = X4"
    unfolding x4_def X4_def by (simp add: unat_add_small unat_shift u3)
  have b4: "X4 \<le> 2 * 0x0f0f0f0f"
    unfolding X4_def using b3 by simp
  then have "unat x4 + unat (drop_bit 16 x4) < 4294967296"
    by (simp add: unat_shift u4)
  then have u5: "unat x5 = X5"
    unfolding x5_def X5_def by (simp add: unat_add_small unat_shift u4)
  have "popCountUint32 x = x5 AND 0x7f"
    by (simp add: popCountUint32_def Let_def x5_def x4_def x3_def s3_def x2_def x1_def a1_def)
  then have "unat (popCountUint32 x) = X5 AND 0x7f"
    by (simp add: unat_and u5)
  also have "\<dots> = popcount_nat X0"
    by (simp add: popcount_nat_def Let_def X5_def X4_def X3_def X2_def X1_def)
  finally show ?thesis
    by (simp add: X0_def)
qed

lemma unat_popCount_set_bits: "unat (popCountUint32 x) = set_bits x"
  by (simp add: unat_popCountUint32 popcount_nat_unat)

lemma set_bits_split: "set_bits (x AND y) + set_bits (x AND NOT y) = set_bits x"
proof -
  have "of_bool (bit (x AND y) i) + of_bool (bit (x AND NOT y) i) = (of_bool (bit x i) :: nat)"
    if "i < 32" for i
    using that by (simp add: bit_and_iff bit_not_iff)
  then have "map (\<lambda>i. of_bool (bit (x AND y) i) + of_bool (bit (x AND NOT y) i)) [0..<32] =
      map (\<lambda>i. (of_bool (bit x i) :: nat)) [0..<32]"
    by (intro map_cong refl) simp
  then have "sum_list (map (\<lambda>i. of_bool (bit (x AND y) i) + of_bool (bit (x AND NOT y) i)) [0..<32]) =
      set_bits x"
    by (simp only: set_bits_def word_bits_def)
  then show ?thesis
    by (simp add: set_bits_def word_bits_def sum_list_addf)
qed

lemma popCount_split:
  "popCountUint32 (x AND y) + popCountUint32 (x AND NOT y) = popCountUint32 x"
proof -
  have "popCountUint32 w = (word_of_nat (set_bits w) :: u32)" for w
    using arg_cong [OF unat_popCount_set_bits [of w], of "word_of_nat :: nat \<Rightarrow> u32"] by simp
  then show ?thesis
    by (simp add: set_bits_split flip: of_nat_add)
qed

lemma count_loop_sum: "count_loop ws s = s + sum_list (map popCountUint32 ws)"
  by (induction ws arbitrary: s) (simp_all add: add.assoc)

lemma Count_sum: "Count bs = (\<Sum>i = 0..<length (bs_b bs). popCountUint32 (bs_b bs ! i))"
proof -
  have "Count bs = sum_list (map popCountUint32 (bs_b bs))"
    by (simp add: Count_def count_loop_sum)
  also have "\<dots> = (\<Sum>i = 0..<length (bs_b bs). map popCountUint32 (bs_b bs) ! i)"
    using sum_list_sum_nth [of "map popCountUint32 (bs_b bs)"] by simp
  also have "\<dots> = (\<Sum>i = 0..<length (bs_b bs). popCountUint32 (bs_b bs ! i))"
    by (intro sum.cong refl) simp
  finally show ?thesis .
qed

lemma overlay_nth:
  "i < length rs \<Longrightarrow> overlay f 0 m xs ys rs ! i = (if i < m then f (xs ! i) (ys ! i) else rs ! i)"
  by (simp add: overlay_def)

lemma count_split_sums:
  fixes A C :: "u32 list"
  assumes "m \<le> length A"
  shows "(\<Sum>i = 0..<length A. popCountUint32 (if i < m then A ! i AND NOT (C ! i) else A ! i))
       + (\<Sum>i = 0..<m. popCountUint32 (A ! i AND C ! i))
       = (\<Sum>i = 0..<length A. popCountUint32 (A ! i))"
proof -
  let ?n = "length A"
  let ?g = "\<lambda>i. popCountUint32 (if i < m then A ! i AND NOT (C ! i) else A ! i)"
  have "sum ?g {0..<?n} = sum ?g {0..<m} + sum ?g {m..<?n}"
    by (rule sum.atLeastLessThan_concat [symmetric]) (simp_all add: assms)
  moreover have "sum ?g {0..<m} = (\<Sum>i = 0..<m. popCountUint32 (A ! i AND NOT (C ! i)))"
    by (intro sum.cong refl) simp
  moreover have "sum ?g {m..<?n} = (\<Sum>i = m..<?n. popCountUint32 (A ! i))"
    by (intro sum.cong refl) simp
  moreover have "(\<Sum>i = 0..<m. popCountUint32 (A ! i AND NOT (C ! i)))
      + (\<Sum>i = 0..<m. popCountUint32 (A ! i AND C ! i)) = (\<Sum>i = 0..<m. popCountUint32 (A ! i))"
    by (simp add: popCount_split add.commute flip: sum.distrib)
  moreover have "(\<Sum>i = 0..<m. popCountUint32 (A ! i)) + (\<Sum>i = m..<?n. popCountUint32 (A ! i))
      = (\<Sum>i = 0..<?n. popCountUint32 (A ! i))"
    by (rule sum.atLeastLessThan_concat) (simp_all add: assms)
  ultimately show ?thesis
    by (simp add: add.assoc add.left_commute add.commute)
qed

lemma count_split_holds:
  assumes "sized a" "sized c" "below_wrap (bs_n a)" "below_wrap (bs_n c)"
  shows "count_split a c = Some True"
proof -
  let ?A = "bs_b a" and ?C = "bs_b c"
  let ?m = "min (length ?A) (length ?C)"
  let ?D = "a\<lparr>bs_b := overlay (\<lambda>x y. x AND NOT y) 0 ?m ?A ?C ?A\<rparr>"
  have D: "Difference a c = Some ?D"
    using assms(1,2) by (rule Difference_result)
  obtain s l where sl: "sortByLength a c = (s, l)"
    by (cases "sortByLength a c")
  have cases: "s = a \<and> l = c \<or> s = c \<and> l = a" and le: "bs_n s \<le> bs_n l"
    using sortByLength_cases [OF sl] by simp_all
  then have sla: "sized s" "sized l" "below_wrap (bs_n l)"
    using assms by auto
  have len: "length (bs_b s) \<le> length (bs_b l)"
    using sla(1,2) le sla(3) by (rule sorted_lengths)
  let ?I = "\<lparr>bs_n = bs_n s,
          bs_b = overlay (AND) 0 (length (bs_b s)) (bs_b s) (bs_b l) (replicate (length (bs_b s)) 0)\<rparr>"
  have I: "Intersection a c = Some ?I"
    using sla(1) sl len by (rule Intersection_sorted_result)
  have m: "length (bs_b s) = ?m"
    using cases len by auto
  have "Count ?I = (\<Sum>i = 0..<?m. popCountUint32 (bs_b s ! i AND bs_b l ! i))"
    unfolding Count_sum by (simp add: length_overlay m overlay_nth)
  also have "\<dots> = (\<Sum>i = 0..<?m. popCountUint32 (?A ! i AND ?C ! i))"
    using cases by (auto simp: and.commute)
  finally have cI: "Count ?I = (\<Sum>i = 0..<?m. popCountUint32 (?A ! i AND ?C ! i))" .
  have cD: "Count ?D =
      (\<Sum>i = 0..<length ?A. popCountUint32 (if i < ?m then ?A ! i AND NOT (?C ! i) else ?A ! i))"
    unfolding Count_sum by (simp add: length_overlay overlay_nth if_distrib cong: if_cong)
  have "Count ?D + Count ?I = Count a"
    unfolding cI cD Count_sum [of a] by (intro count_split_sums) simp
  with D I show ?thesis
    by (simp add: count_split_def)
qed

text \<open>
  Claim C7, evaluated where it fails. The claim says that the counts of
  \<open>a.Difference(b)\<close> and \<open>a.Intersection(b)\<close> add up to the count of \<open>a\<close> for all bitsets.
  With \<open>a = New 1\<close> and \<open>b = New (2^32 - 2)\<close>, which has no word, \<open>Difference\<close> returns
  but \<open>Intersection\<close> panics on word 0 of \<open>b\<close>, so there are no two counts to add.
  For lengths up to \<open>2^32 - 32\<close> the equation holds (\<open>count_split_holds\<close>).
\<close>

theorem count_split_panics_on_wrapped_length:
  "Difference (New 1) (New 0xFFFFFFFE) = Some (New 1)
   \<and> Intersection (New 1) (New 0xFFFFFFFE) = None
   \<and> count_split (New 1) (New 0xFFFFFFFE) = None"
  by (simp add: count_split_def op_defs access_defs const_defs counted_loop.simps)

subsection \<open>Complement\<close>

lemma string_loop_Some: "i < length ws \<Longrightarrow> \<exists>s. string_loop i ws buf = Some s"
  by (induction i arbitrary: buf) simp_all

lemma String_Some:
  assumes "sized bs" "wordsNeeded (bs_n bs) \<noteq> 0"
  shows "\<exists>s. String bs = Some s"
proof -
  from assms(2) have "0 < unat (wordsNeeded (bs_n bs))"
    by (simp add: unat_gt_0)
  moreover from assms(2) have "unat (wordsNeeded (bs_n bs) - 1) = unat (wordsNeeded (bs_n bs)) - 1"
    by (simp add: unat_minus_one)
  ultimately have "unat (wordsNeeded (bs_n bs) - 1) < length (bs_b bs)"
    using assms(1) by (simp add: sized_def)
  then show ?thesis
    unfolding String_def by (rule string_loop_Some)
qed

lemma Complement_result:
  assumes "sized bs" "wordsNeeded (bs_n bs) \<noteq> 0"
  shows "Complement bs =
    Some \<lparr>bs_n = bs_n bs,
          bs_b = (if bs_n bs mod lWord = 0 then map NOT (bs_b bs)
                  else (map NOT (bs_b bs))[length (bs_b bs) - 1 :=
                         NOT (bs_b bs ! (length (bs_b bs) - 1)) AND tail_mask (bs_n bs)])\<rparr>"
proof -
  obtain s where s: "String bs = Some s"
    using String_Some [OF assms] by blast
  have len: "length (bs_b bs) = unat (wordsNeeded (bs_n bs))"
    using assms(1) by (simp add: sized_def)
  have loop: "complement_loop (bs_b bs) 0 (bs_b (New (bs_n bs))) = Some (map NOT (bs_b bs))"
    using len by (subst complement_loop_result) (simp_all add: New_def)
  from assms(2) have pos: "0 < unat (wordsNeeded (bs_n bs))"
    by (simp add: unat_gt_0)
  from assms(2) have last: "unat (wordsNeeded (bs_n bs) - 1) = length (bs_b bs) - 1"
    by (simp add: unat_minus_one len)
  show ?thesis
    unfolding Complement_def s option.case Let_def loop
    using pos len last
    by (simp add: cleanLastWord_def isEven_def word_upd_def New_def tail_mask_def)
qed






lemma unat_mod32: "unat (k mod lWord) = unat k mod 32"
  by (simp add: lWord_def unat_mod)

lemma tail_mask_bit: "bit (tail_mask k) j \<longleftrightarrow> j < unat k mod 32"
proof -
  have "unat k mod 32 \<le> 32"
    by simp
  then have "unat (k mod lWord) \<le> unat lWord"
    unfolding unat_mod32 by (simp add: lWord_def)
  then have "k mod lWord \<le> lWord"
    by (simp add: word_le_nat_alt)
  then have "unat (lWord - k mod lWord) = unat lWord - unat (k mod lWord)"
    by (rule unat_sub)
  then have s: "unat (lWord - k mod lWord) = 32 - unat k mod 32"
    by (simp add: unat_mod32) (simp add: lWord_def)
  have a: "allBits = - 1"
    by (simp add: allBits_def)
  have lt: "unat k mod 32 < 32"
    by simp
  have "bit (tail_mask k) j \<longleftrightarrow> 32 - unat k mod 32 + j < 32"
    unfolding tail_mask_def s a by (auto simp add: bit_drop_bit_eq bit_simps)
  with lt show ?thesis
    by (simp only:) arith
qed

lemma Complement_padding:
  assumes "sized bs" "bs_n bs \<noteq> 0" "below_wrap (bs_n bs)"
  shows "\<exists>r. Complement bs = Some r \<and> bs_n r = bs_n bs \<and> length (bs_b r) = length (bs_b bs)
           \<and> padding_zero r"
proof -
  let ?ws = "bs_b bs"
  let ?L = "length ?ws"
  let ?M = "tail_mask (bs_n bs)"
  let ?r = "\<lparr>bs_n = bs_n bs,
          bs_b = (if bs_n bs mod lWord = 0 then map NOT ?ws
                  else (map NOT ?ws)[?L - 1 := NOT (?ws ! (?L - 1)) AND ?M])\<rparr>"
  have L: "?L = (unat (bs_n bs) + 31) div 32"
    using assms by (simp add: sized_def unat_wordsNeeded)
  from assms(2) have "0 < unat (bs_n bs)"
    by (simp add: unat_gt_0)
  with L have pos: "0 < ?L"
    by simp
  then have "wordsNeeded (bs_n bs) \<noteq> 0"
    using assms(1) by (auto simp: sized_def)
  with assms(1) have r: "Complement bs = Some ?r"
    by (rule Complement_result)
  have "padding_zero ?r"
    unfolding padding_zero_def
  proof
    fix p
    assume "p \<in> {unat (bs_n ?r)..<32 * length (bs_b ?r)}"
    then have p: "unat (bs_n bs) \<le> p" "p < 32 * ?L"
      by (simp_all split: if_splits)
    have ne: "unat (bs_n bs) mod 32 \<noteq> 0"
    proof
      assume "unat (bs_n bs) mod 32 = 0"
      then obtain q where "unat (bs_n bs) = 32 * q"
        by (auto simp: mod_eq_0_iff_dvd elim: dvdE)
      then have "32 * ?L = unat (bs_n bs)"
        unfolding L by simp
      with p show False
        by simp
    qed
    have ne': "bs_n bs mod lWord \<noteq> 0"
    proof
      assume "bs_n bs mod lWord = 0"
      then have "unat (bs_n bs mod lWord) = 0"
        by (simp only: unat_0)
      with ne show False
        by (simp only: unat_mod32)
    qed
    define q where "q = unat (bs_n bs) div 32"
    define t where "t = unat (bs_n bs) mod 32"
    have nqt: "unat (bs_n bs) = 32 * q + t" and t: "0 < t" "t < 32"
      using ne by (simp_all add: q_def t_def)
    have Lq: "?L = q + 1"
      unfolding L nqt using t by simp
    from p have "32 * q + t \<le> p" "p < 32 * q + 32"
      unfolding Lq nqt by simp_all
    then obtain r where "p = 32 * q + r" "t \<le> r" "r < 32"
      by (intro that [of "p - 32 * q"]) simp_all
    then have "p div 32 = q" and m': "t \<le> p mod 32"
      by simp_all
    then have d: "p div 32 = ?L - 1"
      by (simp add: Lq)
    from m' have m: "unat (bs_n bs) mod 32 \<le> p mod 32"
      by (simp add: t_def)
    have "bs_b ?r ! (p div 32) = NOT (?ws ! (?L - 1)) AND ?M"
      using ne' pos d by simp
    moreover have "\<not> bit ?M (p mod 32)"
      using m by (simp add: tail_mask_bit)
    ultimately show "\<not> bit (bs_b ?r ! (p div 32)) (p mod 32)"
      by (simp add: bit_and_iff)
  qed
  with r show ?thesis
    by (intro exI [of _ ?r]) simp
qed





text \<open>
  Claim C2, evaluated where it fails. The claim says that no bit at a position from
  the length on is set in the words of a complement, also for length 0. \<open>New 0\<close> has
  one word; its complement inverts that word to \<open>0xFFFFFFFF\<close>, and \<open>cleanLastWord\<close>
  masks nothing because \<open>isEven\<close> holds of length 0: all 32 bits of the result lie
  past its length 0 and are set, and \<open>Count\<close> of the empty result is 32. For every
  other length up to \<open>2^32 - 32\<close> the claim holds (\<open>Complement_padding\<close>).
\<close>

theorem Complement_of_empty_sets_padding:
  "Complement (New 0) = Some \<lparr>bs_n = 0, bs_b = [0xFFFFFFFF]\<rparr>
   \<and> bit (bs_b \<lparr>bs_n = 0, bs_b = [0xFFFFFFFF]\<rparr> ! 0) 0
   \<and> Count \<lparr>bs_n = 0, bs_b = [0xFFFFFFFF]\<rparr> = 32"
  by (simp add: op_defs access_defs const_defs popCountUint32_def)

subsection \<open>Every bitset built through the exported functions is sized\<close>

lemma word_upd_length: "word_upd ws i f = Some ws' \<Longrightarrow> length ws' = length ws"
  by (auto simp: word_upd_def split: if_splits)

lemma Clear_keeps_sized:
  assumes "sized bs" "Clear bs i = Some bs'"
  shows "sized bs'"
  using assms by (auto simp: Clear_def sized_def split: if_splits dest: word_upd_length)

lemma Flip_keeps_sized:
  assumes "sized bs" "Flip bs i = Some bs'"
  shows "sized bs'"
proof -
  obtain bs1 where bs1: "(if bs_n bs \<le> i then Set bs i else Some bs) = Some bs1"
    and upd: "map_option (\<lambda>ws. bs1\<lparr>bs_b := ws\<rparr>)
            (word_upd (bs_b bs1) (word_index i) (\<lambda>w. w XOR bit_mask i)) = Some bs'"
    using assms(2) by (auto simp: Flip_def split: option.splits)
  have "sized bs1"
    using bs1 assms(1) Set_keeps_sized by (auto split: if_splits)
  with upd show ?thesis
    by (auto simp: sized_def dest: word_upd_length)
qed

lemma copy_words_length: "length (copy_words dst src) = length dst"
  by (simp add: copy_words_def)

lemma counted_loop_length:
  "counted_loop f i l szl xs ys rs = Some ws \<Longrightarrow> length ws = length rs"
proof (induction f i l szl xs ys rs rule: counted_loop.induct)
  case (1 f i l szl xs ys rs)
  from "1.prems" show ?case
    by (subst (asm) counted_loop.simps) (auto split: if_splits dest: "1.IH")
qed

lemma intersection_loop_length:
  "intersection_loop ws i ys rs = Some rs' \<Longrightarrow> length rs' = length rs"
  by (induction ws arbitrary: i rs) (auto split: if_splits)

lemma complement_loop_length:
  "complement_loop ws i rs = Some rs' \<Longrightarrow> length rs' = length rs"
  by (induction ws arbitrary: i rs) (auto split: if_splits)

lemma sized_Clone: "sized (Clone bs)"
  by (simp add: Clone_def sized_def Let_def copy_words_length New_def)

lemma Difference_keeps_sized: "Difference a c = Some r \<Longrightarrow> sized r"
  using sized_Clone [of a]
  by (auto simp: Difference_def Let_def sized_def dest: counted_loop_length)

lemma Union_keeps_sized: "Union a c = Some r \<Longrightarrow> sized r"
  using sized_Clone [of a] sized_Clone [of c]
  by (auto simp: Union_def Let_def sized_def sortByLength_def split: if_splits dest: counted_loop_length)

lemma SymmetricDifference_keeps_sized: "SymmetricDifference a c = Some r \<Longrightarrow> sized r"
  using sized_Clone [of a] sized_Clone [of c]
  by (auto simp: SymmetricDifference_def Let_def sized_def sortByLength_def split: if_splits
      dest: counted_loop_length)

lemma Intersection_keeps_sized: "Intersection a c = Some r \<Longrightarrow> sized r"
  using sized_New [of "bs_n a"] sized_New [of "bs_n c"]
  by (auto simp: Intersection_def Let_def sized_def sortByLength_def split: if_splits
      dest: intersection_loop_length)

lemma Complement_keeps_sized:
  assumes "Complement bs = Some r"
  shows "sized r"
proof -
  let ?result = "New (bs_n bs)"
  obtain ws where loop: "complement_loop (bs_b bs) 0 (bs_b ?result) = Some ws"
    and clean: "cleanLastWord (?result\<lparr>bs_b := ws\<rparr>) = Some r"
    using assms by (auto simp: Complement_def Let_def split: option.splits)
  have "length ws = length (bs_b ?result)"
    using loop by (rule complement_loop_length)
  then have "sized (?result\<lparr>bs_b := ws\<rparr>)"
    using sized_New [of "bs_n bs"] by (simp add: sized_def)
  with clean show ?thesis
    by (auto simp: cleanLastWord_def sized_def split: if_splits dest: word_upd_length)
qed

lemma built_sized: "built bs \<Longrightarrow> sized bs"
proof (induction rule: built.induct)
  case (built_New k)
  show ?case
    by (rule sized_New)
next
  case (built_Set bs i bs')
  then show ?case
    using Set_keeps_sized by blast
next
  case (built_Clear bs i bs')
  then show ?case
    using Clear_keeps_sized by blast
next
  case (built_Flip bs i bs')
  then show ?case
    using Flip_keeps_sized by blast
next
  case (built_ClearAll bs)
  then show ?case
    by (simp add: ClearAll_def sized_def)
next
  case (built_Clone bs)
  show ?case
    by (rule sized_Clone)
next
  case (built_Copy bs c)
  then show ?case
    by (simp add: Copy_def sized_def copy_words_length)
next
  case (built_Difference a c r)
  then show ?case
    using Difference_keeps_sized by blast
next
  case (built_Intersection a c r)
  then show ?case
    using Intersection_keeps_sized by blast
next
  case (built_Union a c r)
  then show ?case
    using Union_keeps_sized by blast
next
  case (built_SymmetricDifference a c r)
  then show ?case
    using SymmetricDifference_keeps_sized by blast
next
  case (built_Complement bs r)
  then show ?case
    using Complement_keeps_sized by blast
qed

end
